theory Spec2Isabelle
  imports Main
begin

section \<open>The position-indexed image cache (doc-mention.command.ts, class ImageCacheMap)\<close>

text \<open>
  The cache keeps two indices: \<^verbatim>\<open>_map\<close>, from a key to its entry, and
  \<^verbatim>\<open>_poistionMap\<close>, from a row to a column to the set of keys at that cell.
  JavaScript numbers that are used as coordinates are modelled as \<open>int\<close>; the sentinel
  is \<open>-1\<close>. A JavaScript \<^verbatim>\<open>Set<string>\<close> iterates in insertion order and holds no
  duplicates, so it is modelled as a list with the two operations below.
\<close>

datatype load_status = Loading | Loaded | Error

record HTMLImageElement =
  img_src :: string
  img_width :: int
  img_height :: int

text \<open>
  \<^verbatim>\<open>interface IImageCache\<close>. The field \<open>disposable\<close> is the handle returned by
  \<^verbatim>\<open>watchRange\<close>; it is modelled by a number that identifies the handle, and a call of its
  \<^verbatim>\<open>dispose()\<close> is recorded in the log \<open>disposed\<close> of the cache state below.
\<close>

record IImageCache =
  image_elem :: HTMLImageElement
  disposable :: nat
  row :: int
  col :: int
  key :: string
  status :: load_status

record ImageCacheMap =
  c_map :: "string \<rightharpoonup> IImageCache"
  c_poistionMap :: "int \<rightharpoonup> (int \<rightharpoonup> string list)"
  disposed :: "nat list"

definition empty_cache :: ImageCacheMap where
  "empty_cache = \<lparr>c_map = Map.empty, c_poistionMap = Map.empty, disposed = []\<rparr>"

definition set_add :: "string \<Rightarrow> string list \<Rightarrow> string list" where
  "set_add k ks = (if k \<in> set ks then ks else ks @ [k])"

definition set_delete :: "string \<Rightarrow> string list \<Rightarrow> string list" where
  "set_delete k ks = removeAll k ks"

text \<open>
  \<^verbatim>\<open>update\<close>, first half (the block guarded by \<^verbatim>\<open>if (item)\<close>): the key is deleted from
  the bucket found under the \<^emph>\<open>arguments\<close> \<open>r\<close> and \<open>c\<close>, then the entry's fields are
  overwritten.
\<close>

definition update_item :: "string \<Rightarrow> int \<Rightarrow> int \<Rightarrow> ImageCacheMap \<Rightarrow> ImageCacheMap" where
  "update_item k r c s =
     (case c_map s k of
        None \<Rightarrow> s
      | Some item \<Rightarrow>
          (let pm = (case c_poistionMap s r of
                       None \<Rightarrow> c_poistionMap s
                     | Some rowMap \<Rightarrow>
                         (case rowMap c of
                            None \<Rightarrow> c_poistionMap s
                          | Some colMap \<Rightarrow>
                              (c_poistionMap s)(r \<mapsto> rowMap(c \<mapsto> set_delete k colMap))))
           in s\<lparr>c_map := (c_map s)(k \<mapsto> item\<lparr>row := r, col := c\<rparr>),
                c_poistionMap := pm\<rparr>))"

text \<open>
  \<^verbatim>\<open>update\<close>, second half: unless a coordinate is the sentinel, the key is added to the
  bucket at \<open>(r, c)\<close>, creating the row map and the bucket when they are missing. This
  half is not guarded by \<^verbatim>\<open>if (item)\<close>.
\<close>

definition update_bucket :: "string \<Rightarrow> int \<Rightarrow> int \<Rightarrow> ImageCacheMap \<Rightarrow> ImageCacheMap" where
  "update_bucket k r c s =
     (if r = -1 \<or> c = -1 then s
      else
        (let rowMap = (case c_poistionMap s r of None \<Rightarrow> Map.empty | Some rm \<Rightarrow> rm);
             colMap = (case rowMap c of None \<Rightarrow> [] | Some cm \<Rightarrow> cm)
         in s\<lparr>c_poistionMap := (c_poistionMap s)(r \<mapsto> rowMap(c \<mapsto> set_add k colMap))\<rparr>))"

definition update :: "string \<Rightarrow> int \<Rightarrow> int \<Rightarrow> ImageCacheMap \<Rightarrow> ImageCacheMap" where
  "update k r c s = update_bucket k r c (update_item k r c s)"

definition set_entry :: "string \<Rightarrow> IImageCache \<Rightarrow> ImageCacheMap \<Rightarrow> ImageCacheMap" where
  "set_entry k imageCache s =
     update k (row imageCache) (col imageCache) (s\<lparr>c_map := (c_map s)(k \<mapsto> imageCache)\<rparr>)"

text \<open>
  The four lines shared by \<^verbatim>\<open>delete\<close> and by the loop body of \<^verbatim>\<open>deleteByPosition\<close>:
  look the entry up, call its disposer when it exists, delete the key from \<^verbatim>\<open>_map\<close>.
\<close>

definition dispose_key :: "ImageCacheMap \<Rightarrow> string \<Rightarrow> ImageCacheMap" where
  "dispose_key s k =
     (case c_map s k of
        None \<Rightarrow> s\<lparr>c_map := (c_map s)(k := None)\<rparr>
      | Some item \<Rightarrow> s\<lparr>disposed := disposed s @ [disposable item],
                        c_map := (c_map s)(k := None)\<rparr>)"

definition delete :: "string \<Rightarrow> ImageCacheMap \<Rightarrow> ImageCacheMap" where
  "delete k s = dispose_key (update k (-1) (-1) s) k"

definition deleteByPosition :: "int \<Rightarrow> int \<Rightarrow> ImageCacheMap \<Rightarrow> ImageCacheMap" where
  "deleteByPosition r c s =
     (case c_poistionMap s r of
        None \<Rightarrow> s
      | Some rowMap \<Rightarrow>
          (case rowMap c of
             None \<Rightarrow> s
           | Some colMap \<Rightarrow>
               (foldl dispose_key s colMap)\<lparr>c_poistionMap := (c_poistionMap s)(r \<mapsto> rowMap(c := None))\<rparr>))"

definition getByKey :: "ImageCacheMap \<Rightarrow> string \<Rightarrow> IImageCache option" where
  "getByKey s k = c_map s k"

text \<open>\<^verbatim>\<open>rowMap.get(col) || []\<close> inside \<^verbatim>\<open>_getByPosition\<close>: the keys of one bucket.\<close>

definition positionBucket :: "ImageCacheMap \<Rightarrow> int \<Rightarrow> int \<Rightarrow> string list" where
  "positionBucket s r c =
     (case c_poistionMap s r of
        None \<Rightarrow> []
      | Some rowMap \<Rightarrow> (case rowMap c of None \<Rightarrow> [] | Some colMap \<Rightarrow> colMap))"

text \<open>\<^verbatim>\<open>.filter(Boolean)\<close> on a list of possibly undefined entries.\<close>

fun filter_Boolean :: "'a option list \<Rightarrow> 'a list" where
  "filter_Boolean [] = []"
| "filter_Boolean (None # xs) = filter_Boolean xs"
| "filter_Boolean (Some x # xs) = x # filter_Boolean xs"

definition getByPosition_items :: "ImageCacheMap \<Rightarrow> int \<Rightarrow> int \<Rightarrow> IImageCache list" where
  "getByPosition_items s r c = filter_Boolean (map (c_map s) (positionBucket s r c))"

text \<open>
  \<^verbatim>\<open>makeRecord\<close>: a plain object keyed by the \<^emph>\<open>entry's own\<close> \<open>key\<close> field, later items
  overwriting earlier ones.
\<close>

definition record_item :: "(string \<rightharpoonup> IImageCache) \<Rightarrow> IImageCache \<Rightarrow> (string \<rightharpoonup> IImageCache)" where
  "record_item record item = record(key item \<mapsto> item)"

definition makeRecord :: "IImageCache list \<Rightarrow> (string \<rightharpoonup> IImageCache)" where
  "makeRecord imageCache = foldl record_item Map.empty imageCache"

definition record_image ::
  "(string \<rightharpoonup> HTMLImageElement) \<Rightarrow> IImageCache \<Rightarrow> (string \<rightharpoonup> HTMLImageElement)" where
  "record_image record item = record(key item \<mapsto> image_elem item)"

definition makeImageRecord :: "IImageCache list \<Rightarrow> (string \<rightharpoonup> HTMLImageElement)" where
  "makeImageRecord imageCache = foldl record_image Map.empty imageCache"

definition getByPosition :: "ImageCacheMap \<Rightarrow> int \<Rightarrow> int \<Rightarrow> (string \<rightharpoonup> IImageCache)" where
  "getByPosition s r c = makeRecord (getByPosition_items s r c)"

definition getImageCahce :: "ImageCacheMap \<Rightarrow> int \<Rightarrow> int \<Rightarrow> (string \<rightharpoonup> HTMLImageElement)" where
  "getImageCahce s r c = makeImageRecord (getByPosition_items s r c)"

text \<open>Sequences of calls on one cache.\<close>

datatype cache_op =
    Set string IImageCache
  | Update string int int
  | Delete string
  | DeleteByPosition int int

fun apply_op :: "ImageCacheMap \<Rightarrow> cache_op \<Rightarrow> ImageCacheMap" where
  "apply_op s (Set k e) = set_entry k e s"
| "apply_op s (Update k r c) = update k r c s"
| "apply_op s (Delete k) = delete k s"
| "apply_op s (DeleteByPosition r c) = deleteByPosition r c s"

definition run :: "cache_op list \<Rightarrow> ImageCacheMap" where
  "run ops = foldl apply_op empty_cache ops"

text \<open>An entry as \<^verbatim>\<open>_handleMatrix\<close> builds it: status \<^verbatim>\<open>'loading'\<close>, the key stored in it.\<close>

definition new_item :: "string \<Rightarrow> int \<Rightarrow> int \<Rightarrow> nat \<Rightarrow> HTMLImageElement \<Rightarrow> IImageCache" where
  "new_item k r c d img =
     \<lparr>image_elem = img, disposable = d, row = r, col = c, key = k, status = Loading\<rparr>"

definition blank_image :: HTMLImageElement where
  "blank_image = \<lparr>img_src = [], img_width = 0, img_height = 0\<rparr>"

section \<open>The cell-image service (class SheetCellCacheManagerService)\<close>

record IRange =
  startRow :: int
  endRow :: int
  startColumn :: int
  endColumn :: int

text \<open>
  The callback handed to \<^verbatim>\<open>watchRange\<close> in \<^verbatim>\<open>_handleMatrix\<close>; it closes over the cache
  of the scope and the key. \<open>None\<close> is \<^verbatim>\<open>after = null\<close>.
\<close>

definition watchCallback :: "string \<Rightarrow> IRange option \<Rightarrow> ImageCacheMap \<Rightarrow> ImageCacheMap" where
  "watchCallback k after s =
     (case after of
        Some rng \<Rightarrow> update k (startRow rng) (startColumn rng) s
      | None \<Rightarrow> delete k s)"

text \<open>
  What \<^verbatim>\<open>_handleMatrix\<close> reads of a cell: \<^verbatim>\<open>cell.p.drawingsOrder\<close> and
  \<^verbatim>\<open>cell.p.drawings\<close>, both optional, and of a drawing its source, whether its
  \<^verbatim>\<open>imageSourceType\<close> is \<^verbatim>\<open>ImageSourceType.UUID\<close>, and the optional size in its
  optional \<^verbatim>\<open>transform\<close>.
\<close>

record ITransformState =
  t_width :: "int option"
  t_height :: "int option"

record IDrawing =
  source :: string
  sourceIsUUID :: bool
  transform :: "ITransformState option"

record IDocumentData =
  drawingsOrder :: "string list option"
  drawings :: "(string \<rightharpoonup> IDrawing) option"

record ICellData =
  cell_p :: "IDocumentData option"

text \<open>
  The state one pass of \<^verbatim>\<open>_handleMatrix\<close> works on: the cache of the scope, the handles
  \<^verbatim>\<open>watchRange\<close> has given out so far (each call returns the next one, with the watched
  cell and the key of the callback), and the loads issued, in order: a call of
  \<^verbatim>\<open>getImage(source)\<close> for a UUID source, an assignment of \<^verbatim>\<open>src\<close> otherwise.
\<close>

record scope_state =
  sc_cache :: ImageCacheMap
  sc_nextDisposable :: nat
  sc_watches :: "(nat \<times> int \<times> int \<times> string) list"
  sc_loads :: "(string \<times> string) list"

text \<open>\<^verbatim>\<open>x || 0\<close> on an optional number.\<close>

definition or_zero :: "int option \<Rightarrow> int" where
  "or_zero x = (case x of None \<Rightarrow> 0 | Some v \<Rightarrow> v)"

text \<open>
  The image element of a new entry once the synchronous part of the callback is over. The
  source assigns \<^verbatim>\<open>width\<close>, \<^verbatim>\<open>height\<close> and (for a source that is not a UUID) \<^verbatim>\<open>src\<close> after
  \<^verbatim>\<open>map.set\<close>, on the object the entry holds; a UUID source gets its \<^verbatim>\<open>src\<close> only when
  \<^verbatim>\<open>getImage\<close> resolves.
\<close>

definition drawing_image :: "IDrawing option \<Rightarrow> HTMLImageElement" where
  "drawing_image drawing =
     (case drawing of
        None \<Rightarrow> blank_image
      | Some dr \<Rightarrow>
          \<lparr>img_src = (if sourceIsUUID dr then [] else source dr),
           img_width = (case transform dr of None \<Rightarrow> 0 | Some t \<Rightarrow> or_zero (t_width t)),
           img_height = (case transform dr of None \<Rightarrow> 0 | Some t \<Rightarrow> or_zero (t_height t))\<rparr>)"

text \<open>
  \<^verbatim>\<open>imageCache[key]\<close> reads a property of the plain object that \<^verbatim>\<open>makeRecord\<close> built, and
  \<^verbatim>\<open>if (!image)\<close> tests the value for truthiness. A plain object answers not only for the
  keys assigned to it. It inherits the properties of \<^verbatim>\<open>Object.prototype\<close>, whose names are
  listed below and whose values are functions or objects, all truthy. And the assignment
  \<^verbatim>\<open>record['__proto__'] = item\<close> in \<^verbatim>\<open>makeRecord\<close> does not store a property but makes the
  item the prototype of the record, so that the record then also answers for the fields of
  that item: \<^verbatim>\<open>image\<close> and \<^verbatim>\<open>disposable\<close> are objects, \<^verbatim>\<open>status\<close> is a non-empty string,
  \<^verbatim>\<open>key\<close> a string, \<^verbatim>\<open>row\<close> and \<^verbatim>\<open>col\<close> numbers, truthy unless empty or zero.
\<close>

definition Object_prototype_names :: "string list" where
  "Object_prototype_names =
     [''constructor'', ''__defineGetter__'', ''__defineSetter__'', ''hasOwnProperty'',
      ''__lookupGetter__'', ''__lookupSetter__'', ''isPrototypeOf'', ''propertyIsEnumerable'',
      ''toString'', ''valueOf'', ''__proto__'', ''toLocaleString'']"

definition item_property_truthy :: "IImageCache \<Rightarrow> string \<Rightarrow> bool" where
  "item_property_truthy item k =
     (k = ''image'' \<or> k = ''disposable'' \<or> k = ''status''
      \<or> (k = ''key'' \<and> key item \<noteq> [])
      \<or> (k = ''row'' \<and> row item \<noteq> 0)
      \<or> (k = ''col'' \<and> col item \<noteq> 0))"

definition read_truthy :: "(string \<rightharpoonup> IImageCache) \<Rightarrow> string \<Rightarrow> bool" where
  "read_truthy imageCache k =
     (k \<in> set Object_prototype_names
      \<or> imageCache k \<noteq> None
      \<or> (case imageCache ''__proto__'' of
            None \<Rightarrow> False
          | Some proto \<Rightarrow> item_property_truthy proto k))"

text \<open>
  The body of \<^verbatim>\<open>drawingsOrder.forEach(async (key) => ...)\<close> up to its first suspension.
  \<open>imageCache\<close> is the record read once per cell, before the loop. Two reads can throw
  inside the async function, which only rejects a promise nobody awaits: reading
  \<^verbatim>\<open>drawings[key]\<close> when \<^verbatim>\<open>drawings\<close> is undefined (nothing has happened yet), and
  reading \<^verbatim>\<open>drawing.transform\<close> when the drawing is undefined (the watch is registered and
  the entry is set, no load is issued).
\<close>

definition handleKey ::
  "int \<Rightarrow> int \<Rightarrow> IDocumentData \<Rightarrow> (string \<rightharpoonup> IImageCache) \<Rightarrow> scope_state \<Rightarrow> string \<Rightarrow> scope_state" where
  "handleKey r c doc imageCache st k =
     (if read_truthy imageCache k then st
      else
        (case drawings doc of
           None \<Rightarrow> st
         | Some ds \<Rightarrow>
             (let d = sc_nextDisposable st;
                  item = new_item k r c d (drawing_image (ds k));
                  st1 = st\<lparr>sc_cache := set_entry k item (sc_cache st),
                           sc_nextDisposable := Suc d,
                           sc_watches := sc_watches st @ [(d, r, c, k)]\<rparr>
              in (case ds k of
                    None \<Rightarrow> st1
                  | Some dr \<Rightarrow> st1\<lparr>sc_loads := sc_loads st1 @ [(k, source dr)]\<rparr>))))"

text \<open>
  The callback of \<^verbatim>\<open>matrix.forValue\<close>: a cell with a non-empty \<^verbatim>\<open>drawingsOrder\<close> has its
  keys handled against one reading of \<^verbatim>\<open>getByPosition\<close>; any other cell evicts its
  position.
\<close>

definition handleCell :: "scope_state \<Rightarrow> int \<times> int \<times> ICellData option \<Rightarrow> scope_state" where
  "handleCell st rc =
     (case rc of (r, c, cell) \<Rightarrow>
        (case (case cell of None \<Rightarrow> None | Some cd \<Rightarrow> cell_p cd) of
           None \<Rightarrow> st\<lparr>sc_cache := deleteByPosition r c (sc_cache st)\<rparr>
         | Some doc \<Rightarrow>
             (case drawingsOrder doc of
                None \<Rightarrow> st\<lparr>sc_cache := deleteByPosition r c (sc_cache st)\<rparr>
              | Some ks \<Rightarrow>
                  if ks = [] then st\<lparr>sc_cache := deleteByPosition r c (sc_cache st)\<rparr>
                  else foldl (handleKey r c doc (getByPosition (sc_cache st) r c)) st ks)))"

text \<open>The matrix is given as the cells \<^verbatim>\<open>forValue\<close> visits, in its order.\<close>

definition handleCells :: "scope_state \<Rightarrow> (int \<times> int \<times> ICellData option) list \<Rightarrow> scope_state" where
  "handleCells st matrix = foldl handleCell st matrix"

text \<open>
  The service: the caches by unit id and sub-unit id, and, for what \<^verbatim>\<open>_handleMatrix\<close> does
  to its collaborators, the next handle of \<^verbatim>\<open>watchRange\<close>, the watches registered and the
  loads issued. The map \<^verbatim>\<open>_initedMap\<close> only decides when \<^verbatim>\<open>_handleMatrix\<close> is called and is
  left out.
\<close>

record SheetCellCacheManagerService =
  imageMaps :: "string \<rightharpoonup> (string \<rightharpoonup> ImageCacheMap)"
  nextDisposable :: nat
  watches :: "(nat \<times> int \<times> int \<times> string) list"
  loads :: "(string \<times> string) list"

definition new_service :: SheetCellCacheManagerService where
  "new_service = \<lparr>imageMaps = Map.empty, nextDisposable = 0, watches = [], loads = []\<rparr>"

text \<open>\<^verbatim>\<open>_ensureMap\<close> returns the cache of the scope, an empty one when the scope is new.\<close>

definition ensureMap :: "SheetCellCacheManagerService \<Rightarrow> string \<Rightarrow> string \<Rightarrow> ImageCacheMap" where
  "ensureMap svc unitId subUnitId =
     (case imageMaps svc unitId of
        None \<Rightarrow> empty_cache
      | Some unitMap \<Rightarrow> (case unitMap subUnitId of None \<Rightarrow> empty_cache | Some subUnitMap \<Rightarrow> subUnitMap))"

definition handleMatrix ::
  "SheetCellCacheManagerService \<Rightarrow> string \<Rightarrow> string \<Rightarrow> (int \<times> int \<times> ICellData option) list
     \<Rightarrow> SheetCellCacheManagerService" where
  "handleMatrix svc unitId subUnitId matrix =
     (let st = handleCells \<lparr>sc_cache = ensureMap svc unitId subUnitId,
                            sc_nextDisposable = nextDisposable svc,
                            sc_watches = watches svc, sc_loads = loads svc\<rparr> matrix;
          unitMap = (case imageMaps svc unitId of None \<Rightarrow> Map.empty | Some um \<Rightarrow> um)
      in \<lparr>imageMaps = (imageMaps svc)(unitId \<mapsto> unitMap(subUnitId \<mapsto> sc_cache st)),
          nextDisposable = sc_nextDisposable st,
          watches = sc_watches st, loads = sc_loads st\<rparr>)"

text \<open>The three public lookups; \<open>None\<close> is the \<^verbatim>\<open>undefined\<close> of a broken \<^verbatim>\<open>?.\<close> chain.\<close>

definition scopeMap :: "SheetCellCacheManagerService \<Rightarrow> string \<Rightarrow> string \<Rightarrow> ImageCacheMap option" where
  "scopeMap svc unitId subUnitId =
     (case imageMaps svc unitId of None \<Rightarrow> None | Some unitMap \<Rightarrow> unitMap subUnitId)"

definition getImageCache ::
  "SheetCellCacheManagerService \<Rightarrow> string \<Rightarrow> string \<Rightarrow> int \<Rightarrow> int \<Rightarrow> (string \<rightharpoonup> IImageCache) option" where
  "getImageCache svc unitId subUnitId r c =
     (case scopeMap svc unitId subUnitId of None \<Rightarrow> None | Some m \<Rightarrow> Some (getByPosition m r c))"

definition getImageElementByPosition ::
  "SheetCellCacheManagerService \<Rightarrow> string \<Rightarrow> string \<Rightarrow> int \<Rightarrow> int
     \<Rightarrow> (string \<rightharpoonup> HTMLImageElement) option" where
  "getImageElementByPosition svc unitId subUnitId r c =
     (case scopeMap svc unitId subUnitId of None \<Rightarrow> None | Some m \<Rightarrow> Some (getImageCahce m r c))"

definition getImageElementByKey ::
  "SheetCellCacheManagerService \<Rightarrow> string \<Rightarrow> string \<Rightarrow> string \<Rightarrow> HTMLImageElement option" where
  "getImageElementByKey svc unitId subUnitId k =
     (case scopeMap svc unitId subUnitId of
        None \<Rightarrow> None
      | Some m \<Rightarrow> (case getByKey m k of None \<Rightarrow> None | Some item \<Rightarrow> Some (image_elem item)))"

section \<open>Undo and redo of the column auto width (auto-width.controller.ts)\<close>

datatype js_error = TypeError

record IColAutoWidthInfo =
  info_col :: int
  autoWidth :: "int option"

record ISetWorksheetColAutoWidthMutationParams =
  subUnitId :: string
  unitId :: string
  colsAutoWidthInfo :: "IColAutoWidthInfo list"

record IMutationInfo =
  mut_id :: string
  mut_params :: ISetWorksheetColAutoWidthMutationParams

record IUndoRedoMutations =
  redos :: "IMutationInfo list"
  undos :: "IMutationInfo list"

text \<open>
  Of the worksheet only the sheet id and the stored auto width of each column matter
  here; a width is a number the controller copies and never computes with.
\<close>

record Worksheet =
  sheetId :: string
  colAutoWidth :: "int \<Rightarrow> int option"

record Workbook =
  wb_unitId :: string
  activeSheet :: Worksheet

text \<open>
  What the controller reads of its services when a command is intercepted:
  the current workbook (\<^verbatim>\<open>getCurrentUnitForType\<close>, possibly null), for a unit id its render
  (\<^verbatim>\<open>getRenderById\<close>, possibly missing) with the current skeleton of the render
  (\<^verbatim>\<open>getCurrent()\<close>, possibly null) given by its function \<^verbatim>\<open>calculateAutoWidthInRange\<close>,
  the ranges of the current selections (possibly undefined), and the ids of the three
  commands, which are declared outside this file.
\<close>

record controller_env =
  currentUnit :: "Workbook option"
  renderSkeleton :: "string \<Rightarrow> (IRange list \<Rightarrow> IColAutoWidthInfo list) option option"
  currentSelections :: "IRange list option"
  SetWorksheetColIsAutoWidthCommand_id :: string
  SetStyleCommand_id :: string
  SetWorksheetColAutoWidthMutation_id :: string

text \<open>
  Modelled from the spec: \<^verbatim>\<open>SetWorksheetColAutoWidthMutationFactory\<close> lives in the sheets
  package, which is not part of the sources at hand. The spec describes the undo mutation as
  the symmetric one of the redo mutation, carrying the previously observed values, a full
  list and not a delta. So the factory keeps the columns of its argument and reads the width
  each has in the worksheet it is given.
\<close>

definition previous_width :: "Worksheet \<Rightarrow> IColAutoWidthInfo \<Rightarrow> IColAutoWidthInfo" where
  "previous_width worksheet info =
     \<lparr>info_col = info_col info, autoWidth = colAutoWidth worksheet (info_col info)\<rparr>"

definition SetWorksheetColAutoWidthMutationFactory ::
  "ISetWorksheetColAutoWidthMutationParams \<Rightarrow> Worksheet \<Rightarrow> ISetWorksheetColAutoWidthMutationParams" where
  "SetWorksheetColAutoWidthMutationFactory params worksheet =
     params\<lparr>colsAutoWidthInfo := map (previous_width worksheet) (colsAutoWidthInfo params)\<rparr>"

definition no_mutations :: IUndoRedoMutations where
  "no_mutations = \<lparr>redos = [], undos = []\<rparr>"

text \<open>
  \<^verbatim>\<open>getUndoRedoParamsOfColWidth\<close>. The two non-null assertions of the source throw a
  TypeError when the workbook or the render is missing. An empty string is the only sheet
  id for which \<^verbatim>\<open>!subUnitId\<close> holds. The inner \<open>None\<close> case is the second read of
  \<^verbatim>\<open>getCurrent()\<close>, which the guard has just excluded.
\<close>

definition getUndoRedoParamsOfColWidth ::
  "controller_env \<Rightarrow> IRange list \<Rightarrow> js_error + IUndoRedoMutations" where
  "getUndoRedoParamsOfColWidth env ranges =
     (case currentUnit env of
        None \<Rightarrow> Inl TypeError
      | Some workbook \<Rightarrow>
          (let worksheet = activeSheet workbook;
               unit = wb_unitId workbook;
               subUnit = sheetId worksheet
           in (case renderSkeleton env unit of
                 None \<Rightarrow> Inl TypeError
               | Some current \<Rightarrow>
                   if subUnit = [] \<or> current = None then Inr no_mutations
                   else
                     (case current of
                        None \<Rightarrow> Inr no_mutations
                      | Some calculateAutoWidthInRange \<Rightarrow>
                          (let redoParams = \<lparr>subUnitId = subUnit, unitId = unit,
                                             colsAutoWidthInfo = calculateAutoWidthInRange ranges\<rparr>;
                               undoParams = SetWorksheetColAutoWidthMutationFactory redoParams worksheet
                           in Inr \<lparr>redos = [\<lparr>mut_id = SetWorksheetColAutoWidthMutation_id env,
                                              mut_params = redoParams\<rparr>],
                                   undos = [\<lparr>mut_id = SetWorksheetColAutoWidthMutation_id env,
                                              mut_params = undoParams\<rparr>]\<rparr>)))))"

definition AFFECT_LAYOUT_STYLES :: "string list" where
  "AFFECT_LAYOUT_STYLES = [''ff'', ''fs'', ''tr'', ''tb'']"

text \<open>
  The first interceptor. Its command is typed with \<^verbatim>\<open>params.ranges\<close>, read only when the
  id matches.
\<close>

record ColIsAutoWidthCommand =
  cmd_id :: string
  cmd_ranges :: "IRange list"

definition getMutations_colIsAutoWidth ::
  "controller_env \<Rightarrow> ColIsAutoWidthCommand \<Rightarrow> js_error + IUndoRedoMutations" where
  "getMutations_colIsAutoWidth env command =
     (if cmd_id command \<noteq> SetWorksheetColIsAutoWidthCommand_id env then Inr no_mutations
      else getUndoRedoParamsOfColWidth env (cmd_ranges command))"

text \<open>
  The second interceptor. \<open>style_type\<close> is \<^verbatim>\<open>command.params?.style.type\<close>, \<open>None\<close> when
  the command has no params.
\<close>

record SetStyleCommand =
  style_cmd_id :: string
  style_type :: "string option"

definition getMutations_setStyle ::
  "controller_env \<Rightarrow> SetStyleCommand \<Rightarrow> js_error + IUndoRedoMutations" where
  "getMutations_setStyle env command =
     (if style_cmd_id command \<noteq> SetStyleCommand_id env then Inr no_mutations
      else
        (case style_type command of
           None \<Rightarrow> Inr no_mutations
         | Some ty \<Rightarrow>
             if ty \<notin> set AFFECT_LAYOUT_STYLES then Inr no_mutations
             else
               (case currentSelections env of
                  None \<Rightarrow> Inr no_mutations
                | Some selections \<Rightarrow>
                    if selections = [] then Inr no_mutations
                    else getUndoRedoParamsOfColWidth env selections)))"

section \<open>The methods as calls\<close>

text \<open>
  A call of a method of \<^verbatim>\<open>ImageCacheMap\<close>, with what it gives back: an error when it throws,
  else the value it returns and the state of the cache after it. The four mutators return
  \<^verbatim>\<open>undefined\<close>; the three lookups return what they read.
\<close>

datatype cache_call =
    Call_set string IImageCache
  | Call_update string int int
  | Call_delete string
  | Call_deleteByPosition int int
  | Call_getByKey string
  | Call_getByPosition int int
  | Call_getImageCahce int int

datatype cache_return =
    Ret_undefined
  | Ret_entry IImageCache
  | Ret_record "string \<rightharpoonup> IImageCache"
  | Ret_images "string \<rightharpoonup> HTMLImageElement"

fun call :: "ImageCacheMap \<Rightarrow> cache_call \<Rightarrow> js_error + cache_return \<times> ImageCacheMap" where
  "call s (Call_set k e) = Inr (Ret_undefined, set_entry k e s)"
| "call s (Call_update k r c) = Inr (Ret_undefined, update k r c s)"
| "call s (Call_delete k) = Inr (Ret_undefined, delete k s)"
| "call s (Call_deleteByPosition r c) = Inr (Ret_undefined, deleteByPosition r c s)"
| "call s (Call_getByKey k) =
     Inr ((case getByKey s k of None \<Rightarrow> Ret_undefined | Some e \<Rightarrow> Ret_entry e), s)"
| "call s (Call_getByPosition r c) = Inr (Ret_record (getByPosition s r c), s)"
| "call s (Call_getImageCahce r c) = Inr (Ret_images (getImageCahce s r c), s)"

fun is_lookup :: "cache_call \<Rightarrow> bool" where
  "is_lookup (Call_getByKey k) = True"
| "is_lookup (Call_getByPosition r c) = True"
| "is_lookup (Call_getImageCahce r c) = True"
| "is_lookup (Call_set k e) = False"
| "is_lookup (Call_update k r c) = False"
| "is_lookup (Call_delete k) = False"
| "is_lookup (Call_deleteByPosition r c) = False"

text \<open>The same for the three public lookups of the service.\<close>

datatype service_lookup =
    GetImageCache string string int int
  | GetImageElementByPosition string string int int
  | GetImageElementByKey string string string

datatype service_return =
    SRet_undefined
  | SRet_record "string \<rightharpoonup> IImageCache"
  | SRet_images "string \<rightharpoonup> HTMLImageElement"
  | SRet_image HTMLImageElement

fun service_call ::
  "SheetCellCacheManagerService \<Rightarrow> service_lookup
     \<Rightarrow> js_error + service_return \<times> SheetCellCacheManagerService" where
  "service_call svc (GetImageCache unit sub r c) =
     Inr ((case getImageCache svc unit sub r c of
             None \<Rightarrow> SRet_undefined | Some record \<Rightarrow> SRet_record record), svc)"
| "service_call svc (GetImageElementByPosition unit sub r c) =
     Inr ((case getImageElementByPosition svc unit sub r c of
             None \<Rightarrow> SRet_undefined | Some record \<Rightarrow> SRet_images record), svc)"
| "service_call svc (GetImageElementByKey unit sub k) =
     Inr ((case getImageElementByKey svc unit sub k of
             None \<Rightarrow> SRet_undefined | Some img \<Rightarrow> SRet_image img), svc)"

section \<open>Reachable states and invariants\<close>

text \<open>
  Every entry is stored under the key it carries. \<^verbatim>\<open>_handleMatrix\<close>, the only caller of
  \<^verbatim>\<open>set\<close>, builds the entry with the key it stores it under.
\<close>

definition keys_agree :: "ImageCacheMap \<Rightarrow> bool" where
  "keys_agree s = (\<forall>k e. c_map s k = Some e \<longrightarrow> key e = k)"

fun set_key_ok :: "cache_op \<Rightarrow> bool" where
  "set_key_ok (Set k e) = (key e = k)"
| "set_key_ok (Update k r c) = True"
| "set_key_ok (Delete k) = True"
| "set_key_ok (DeleteByPosition r c) = True"

text \<open>
  The half of the index coherence that the code keeps: an entry whose coordinates are not
  the sentinel has its key in the bucket of those coordinates.
\<close>

definition in_own_bucket :: "ImageCacheMap \<Rightarrow> bool" where
  "in_own_bucket s =
     (\<forall>k e. c_map s k = Some e \<longrightarrow> row e \<noteq> -1 \<longrightarrow> col e \<noteq> -1 \<longrightarrow>
        k \<in> set (positionBucket s (row e) (col e)))"

text \<open>
  The handles of the entries that a sequence of calls hands to \<^verbatim>\<open>set\<close>, in order. Each
  call of \<^verbatim>\<open>watchRange\<close> returns a new handle, so in the program they are distinct.
\<close>

fun op_disposers :: "cache_op \<Rightarrow> nat list" where
  "op_disposers (Set k e) = [disposable e]"
| "op_disposers (Update k r c) = []"
| "op_disposers (Delete k) = []"
| "op_disposers (DeleteByPosition r c) = []"

definition created :: "cache_op list \<Rightarrow> nat list" where
  "created ops = concat (map op_disposers ops)"

text \<open>
  The invariant behind the disposer properties, for a set \<open>D\<close> of handles given out so
  far: no handle is disposed twice, only handles from \<open>D\<close> are disposed, the handle of an
  entry in \<^verbatim>\<open>_map\<close> is in \<open>D\<close> and not yet disposed, and two keys never share a handle.
\<close>

definition disposers_ok :: "nat set \<Rightarrow> ImageCacheMap \<Rightarrow> bool" where
  "disposers_ok D s =
     (distinct (disposed s) \<and> set (disposed s) \<subseteq> D
      \<and> (\<forall>k e. c_map s k = Some e \<longrightarrow> disposable e \<in> D \<and> disposable e \<notin> set (disposed s))
      \<and> (\<forall>k k' e e'. c_map s k = Some e \<and> c_map s k' = Some e' \<and> k \<noteq> k'
            \<longrightarrow> disposable e \<noteq> disposable e'))"

text \<open>
  The load that one key of a cell causes, given the record \<^verbatim>\<open>imageCache\<close> read for the
  cell and the drawings of the cell: none when the record has the key or the drawing is
  missing.
\<close>

definition load_of ::
  "(string \<rightharpoonup> IImageCache) \<Rightarrow> (string \<rightharpoonup> IDrawing) \<Rightarrow> string \<Rightarrow> (string \<times> string) list" where
  "load_of imageCache ds k =
     (case imageCache k of
        Some e \<Rightarrow> []
      | None \<Rightarrow> (case ds k of None \<Rightarrow> [] | Some dr \<Rightarrow> [(k, source dr)]))"

text \<open>The cells for which \<^verbatim>\<open>_handleMatrix\<close> falls through to \<^verbatim>\<open>deleteByPosition\<close>.\<close>

definition evicting :: "ICellData option \<Rightarrow> bool" where
  "evicting cell =
     (case cell of
        None \<Rightarrow> True
      | Some cd \<Rightarrow>
          (case cell_p cd of
             None \<Rightarrow> True
           | Some doc \<Rightarrow> (case drawingsOrder doc of None \<Rightarrow> True | Some ks \<Rightarrow> ks = [])))"

text \<open>
  What holds of every cache the service builds: entries are stored under their own keys,
  and no entry is stored under a name that every plain object inherits (\<^verbatim>\<open>_handleMatrix\<close>
  never gets past its guard for such a key).
\<close>

definition cache_ok :: "ImageCacheMap \<Rightarrow> bool" where
  "cache_ok s = (keys_agree s \<and> dom (c_map s) \<inter> set Object_prototype_names = {})"

text \<open>
  What happens to the cache of one scope over time: \<^verbatim>\<open>_handleMatrix\<close> is run on a matrix, or
  a watch fires its callback for a key.
\<close>

datatype scope_op =
    HandleMatrix "(int \<times> int \<times> ICellData option) list"
  | WatchFired string "IRange option"

fun apply_scope_op :: "scope_state \<Rightarrow> scope_op \<Rightarrow> scope_state" where
  "apply_scope_op st (HandleMatrix matrix) = handleCells st matrix"
| "apply_scope_op st (WatchFired k after) = st\<lparr>sc_cache := watchCallback k after (sc_cache st)\<rparr>"

text \<open>Fixtures for the examples: a scope nobody has touched, and a cell whose document has
  one drawing, with a non-UUID source.\<close>

definition empty_scope :: scope_state where
  "empty_scope = \<lparr>sc_cache = empty_cache, sc_nextDisposable = 0, sc_watches = [], sc_loads = []\<rparr>"

definition run_scope :: "scope_op list \<Rightarrow> scope_state" where
  "run_scope ops = foldl apply_scope_op empty_scope ops"

definition image_cell :: "string \<Rightarrow> string \<Rightarrow> ICellData option" where
  "image_cell k src =
     Some \<lparr>cell_p = Some \<lparr>drawingsOrder = Some [k],
                           drawings = Some [k \<mapsto> \<lparr>source = src, sourceIsUUID = False,
                                                      transform = None\<rparr>]\<rparr>\<rparr>"

text \<open>
  The pair \<^verbatim>\<open>getUndoRedoParamsOfColWidth\<close> builds when it does not return early: one redo
  with the widths the skeleton computes for the ranges, one undo made from it by the factory.
\<close>

definition synthesized ::
  "controller_env \<Rightarrow> Workbook \<Rightarrow> (IRange list \<Rightarrow> IColAutoWidthInfo list) \<Rightarrow> IRange list
     \<Rightarrow> IUndoRedoMutations" where
  "synthesized env workbook calc ranges =
     (let redoParams = \<lparr>subUnitId = sheetId (activeSheet workbook), unitId = wb_unitId workbook,
                        colsAutoWidthInfo = calc ranges\<rparr>
      in \<lparr>redos = [\<lparr>mut_id = SetWorksheetColAutoWidthMutation_id env, mut_params = redoParams\<rparr>],
          undos = [\<lparr>mut_id = SetWorksheetColAutoWidthMutation_id env,
                    mut_params = SetWorksheetColAutoWidthMutationFactory redoParams
                                   (activeSheet workbook)\<rparr>]\<rparr>)"

text \<open>
  Fixtures for the controller: a workbook \<^verbatim>\<open>"book"\<close> whose active sheet \<^verbatim>\<open>"sheet1"\<close> has
  width 50 stored for column 1 and none elsewhere, a skeleton that answers 88 for the first
  column of every range, and an environment with that workbook, a render whose current
  skeleton is the argument, and one selected range.
\<close>

definition example_workbook :: Workbook where
  "example_workbook =
     \<lparr>wb_unitId = ''book'',
      activeSheet = \<lparr>sheetId = ''sheet1'', colAutoWidth = (\<lambda>c. if c = 1 then Some 50 else None)\<rparr>\<rparr>"

definition example_skeleton :: "IRange list \<Rightarrow> IColAutoWidthInfo list" where
  "example_skeleton ranges = map (\<lambda>rng. \<lparr>info_col = startColumn rng, autoWidth = Some 88\<rparr>) ranges"

definition example_range :: IRange where
  "example_range = \<lparr>startRow = 0, endRow = 4, startColumn = 1, endColumn = 1\<rparr>"

definition example_env :: "(IRange list \<Rightarrow> IColAutoWidthInfo list) option \<Rightarrow> controller_env" where
  "example_env current =
     \<lparr>currentUnit = Some example_workbook,
      renderSkeleton = (\<lambda>unit. if unit = ''book'' then Some current else None),
      currentSelections = Some [example_range],
      SetWorksheetColIsAutoWidthCommand_id = ''sheet.command.set-col-is-auto-width'',
      SetStyleCommand_id = ''set-style'',
      SetWorksheetColAutoWidthMutation_id = ''set-col-auto-width''\<rparr>"

section \<open>Properties of the cache\<close>

lemmas cache_defs =
  run_def empty_cache_def set_entry_def update_def update_item_def update_bucket_def
  delete_def deleteByPosition_def dispose_key_def positionBucket_def getByPosition_def
  getByPosition_items_def makeRecord_def record_item_def getByKey_def set_add_def set_delete_def
  new_item_def blank_image_def

lemmas controller_defs =
  getMutations_colIsAutoWidth_def getMutations_setStyle_def getUndoRedoParamsOfColWidth_def
  no_mutations_def AFFECT_LAYOUT_STYLES_def SetWorksheetColAutoWidthMutationFactory_def
  previous_width_def example_env_def example_workbook_def example_skeleton_def example_range_def

lemmas scope_defs =
  handleCells_def handleCell_def handleKey_def empty_scope_def image_cell_def drawing_image_def
  or_zero_def watchCallback_def read_truthy_def Object_prototype_names_def item_property_truthy_def
  run_scope_def

lemma foldl_record_Some:
  "foldl record_item m xs k = Some e \<Longrightarrow> (e \<in> set xs \<and> key e = k) \<or> m k = Some e"
proof (induction xs arbitrary: m)
  case Nil
  then show ?case by simp
next
  case (Cons a xs)
  from Cons.prems have "foldl record_item (record_item m a) xs k = Some e"
    by simp
  from Cons.IH [OF this] have "(e \<in> set xs \<and> key e = k) \<or> record_item m a k = Some e" .
  then show ?case
    by (cases "k = key a") (auto simp: record_item_def)
qed

lemma foldl_record_other:
  "\<forall>e\<in>set xs. key e \<noteq> k \<Longrightarrow> foldl record_item m xs k = m k"
proof (induction xs arbitrary: m)
  case Nil
  then show ?case by simp
next
  case (Cons a xs)
  then have "foldl record_item (record_item m a) xs k = record_item m a k" by simp
  moreover have "record_item m a k = m k" using Cons.prems by (auto simp: record_item_def)
  ultimately show ?case by simp
qed

lemma foldl_record_unique:
  "e \<in> set xs \<Longrightarrow> \<forall>e'\<in>set xs. key e' = key e \<longrightarrow> e' = e
   \<Longrightarrow> foldl record_item m xs (key e) = Some e"
proof (induction xs arbitrary: m)
  case Nil
  then show ?case by simp
next
  case (Cons a xs)
  show ?case
  proof (cases "e \<in> set xs")
    case True
    with Cons show ?thesis by simp
  next
    case False
    with Cons.prems have a: "a = e" and no: "\<forall>e'\<in>set xs. key e' \<noteq> key e" by auto
    have "foldl record_item (record_item m e) xs (key e) = record_item m e (key e)"
      by (rule foldl_record_other [OF no])
    moreover have "record_item m e (key e) = Some e" by (simp add: record_item_def)
    ultimately show ?thesis by (simp add: a)
  qed
qed

lemma makeRecord_Some: "makeRecord xs k = Some e \<Longrightarrow> e \<in> set xs \<and> key e = k"
  using foldl_record_Some [of Map.empty xs k e] by (simp add: makeRecord_def)

lemma makeRecord_None: "\<forall>e\<in>set xs. key e \<noteq> k \<Longrightarrow> makeRecord xs k = None"
  using foldl_record_other [of xs k Map.empty] by (simp add: makeRecord_def)

lemma makeRecord_unique:
  "e \<in> set xs \<Longrightarrow> \<forall>e'\<in>set xs. key e' = key e \<longrightarrow> e' = e \<Longrightarrow> makeRecord xs (key e) = Some e"
  by (simp add: makeRecord_def foldl_record_unique)

lemma set_filter_Boolean: "e \<in> set (filter_Boolean (map f ks)) \<longleftrightarrow> (\<exists>k\<in>set ks. f k = Some e)"
proof (induction ks)
  case Nil
  then show ?case by simp
next
  case (Cons a ks)
  then show ?case by (cases "f a") auto
qed

lemma items_iff:
  "e \<in> set (getByPosition_items s r c) \<longleftrightarrow> (\<exists>k\<in>set (positionBucket s r c). c_map s k = Some e)"
  by (simp add: getByPosition_items_def set_filter_Boolean)

lemma getByPosition_keys_agree:
  assumes "keys_agree s"
  shows "getByPosition s r c k = (if k \<in> set (positionBucket s r c) then c_map s k else None)"
proof (cases "k \<in> set (positionBucket s r c) \<and> c_map s k \<noteq> None")
  case True
  then obtain e where e: "c_map s k = Some e" and kb: "k \<in> set (positionBucket s r c)" by auto
  from assms e have ke: "key e = k" by (simp add: keys_agree_def)
  have 1: "e \<in> set (getByPosition_items s r c)" using e kb by (auto simp: items_iff)
  have 2: "\<forall>e'\<in>set (getByPosition_items s r c). key e' = key e \<longrightarrow> e' = e"
    using assms e ke by (auto simp: items_iff keys_agree_def)
  from makeRecord_unique [OF 1 2] show ?thesis using e kb ke by (simp add: getByPosition_def)
next
  case False
  have "\<forall>e'\<in>set (getByPosition_items s r c). key e' \<noteq> k"
    using assms False by (auto simp: items_iff keys_agree_def)
  from makeRecord_None [OF this] show ?thesis using False by (auto simp: getByPosition_def)
qed

lemma getByPosition_subset:
  "getByPosition s r c k = Some e \<Longrightarrow> \<exists>k'\<in>set (positionBucket s r c). c_map s k' = Some e \<and> key e = k"
  using makeRecord_Some [of "getByPosition_items s r c" k e] by (auto simp: getByPosition_def items_iff)

lemma c_map_update_item:
  "c_map (update_item k r c s) = (case c_map s k of None \<Rightarrow> c_map s | Some item \<Rightarrow> (c_map s)(k \<mapsto> item\<lparr>row := r, col := c\<rparr>))"
  by (simp add: update_item_def Let_def split: option.splits)

lemma c_map_update_bucket: "c_map (update_bucket k r c s) = c_map s"
  by (simp add: update_bucket_def Let_def)

lemma c_map_update:
  "c_map (update k r c s) = (case c_map s k of None \<Rightarrow> c_map s | Some item \<Rightarrow> (c_map s)(k \<mapsto> item\<lparr>row := r, col := c\<rparr>))"
  by (simp add: update_def c_map_update_bucket c_map_update_item)

lemma disposed_update: "disposed (update k r c s) = disposed s"
  by (simp add: update_def update_bucket_def update_item_def Let_def split: option.splits)

lemma c_map_set_entry:
  "c_map (set_entry k e s) = (c_map s)(k \<mapsto> e\<lparr>row := row e, col := col e\<rparr>)"
  by (simp add: set_entry_def c_map_update)

lemma c_map_dispose_key: "c_map (dispose_key s k) = (c_map s)(k := None)"
  by (simp add: dispose_key_def split: option.splits)

lemma c_map_foldl_dispose_key:
  "c_map (foldl dispose_key s ks) k = (if k \<in> set ks then None else c_map s k)"
  by (induction ks arbitrary: s) (auto simp: c_map_dispose_key)

lemma c_map_delete: "c_map (delete k s) = (c_map s)(k := None)"
  by (auto simp: delete_def c_map_dispose_key c_map_update split: option.splits)

lemma c_map_deleteByPosition:
  "c_map (deleteByPosition r c s) k = (if k \<in> set (positionBucket s r c) then None else c_map s k)"
  by (auto simp: deleteByPosition_def positionBucket_def c_map_foldl_dispose_key split: option.splits)

lemma keys_agree_update: "keys_agree s \<Longrightarrow> keys_agree (update k r c s)"
  by (auto simp: keys_agree_def c_map_update split: option.splits if_splits)

lemma keys_agree_set_entry: "keys_agree s \<Longrightarrow> key e = k \<Longrightarrow> keys_agree (set_entry k e s)"
  by (auto simp: keys_agree_def c_map_set_entry split: if_splits)

lemma keys_agree_delete: "keys_agree s \<Longrightarrow> keys_agree (delete k s)"
  by (auto simp: keys_agree_def c_map_delete split: if_splits)

lemma keys_agree_deleteByPosition: "keys_agree s \<Longrightarrow> keys_agree (deleteByPosition r c s)"
  by (auto simp: keys_agree_def c_map_deleteByPosition split: if_splits)

lemma keys_agree_apply_op: "keys_agree s \<Longrightarrow> set_key_ok op \<Longrightarrow> keys_agree (apply_op s op)"
  by (cases op)
     (simp_all add: keys_agree_set_entry keys_agree_update keys_agree_delete
        keys_agree_deleteByPosition)

lemma keys_agree_foldl:
  "keys_agree s \<Longrightarrow> list_all set_key_ok ops \<Longrightarrow> keys_agree (foldl apply_op s ops)"
  by (induction ops arbitrary: s) (simp_all add: keys_agree_apply_op)

lemma keys_agree_empty: "keys_agree empty_cache"
  by (simp add: keys_agree_def empty_cache_def)

lemma keys_agree_run: "list_all set_key_ok ops \<Longrightarrow> keys_agree (run ops)"
  unfolding run_def by (rule keys_agree_foldl [OF keys_agree_empty])

lemma positionBucket_c_map_upd [simp]:
  "positionBucket (s\<lparr>c_map := m\<rparr>) r c = positionBucket s r c"
  by (simp add: positionBucket_def)

lemma positionBucket_update_item:
  "positionBucket (update_item k r c s) r' c' =
     (if r' = r \<and> c' = c \<and> c_map s k \<noteq> None then set_delete k (positionBucket s r c)
      else positionBucket s r' c')"
  by (cases "c_map s k"; cases "c_poistionMap s r")
     (auto simp: update_item_def positionBucket_def Let_def set_delete_def split: option.splits)

lemma positionBucket_update_bucket:
  "positionBucket (update_bucket k r c s) r' c' =
     (if r' = r \<and> c' = c \<and> r \<noteq> -1 \<and> c \<noteq> -1 then set_add k (positionBucket s r c)
      else positionBucket s r' c')"
  by (cases "c_poistionMap s r")
     (auto simp: update_bucket_def positionBucket_def Let_def split: option.splits)

lemma c_map_update_cases:
  "c_map (update k r c s) k' =
     map_option (\<lambda>e. if k' = k then e\<lparr>row := r, col := c\<rparr> else e) (c_map s k')"
  by (cases "c_map s k"; cases "c_map s k'"; cases "k' = k") (auto simp: c_map_update)

lemma positionBucket_update:
  "positionBucket (update k r c s) r' c' =
     (if r' = r \<and> c' = c then
        (if r = -1 \<or> c = -1
         then (if c_map s k = None then positionBucket s r c else set_delete k (positionBucket s r c))
         else set_add k (if c_map s k = None then positionBucket s r c
                         else set_delete k (positionBucket s r c)))
      else positionBucket s r' c')"
  by (auto simp: update_def positionBucket_update_bucket positionBucket_update_item)

lemma positionBucket_dispose_key [simp]: "positionBucket (dispose_key s k) r c = positionBucket s r c"
  by (simp add: dispose_key_def positionBucket_def split: option.splits)

lemma disposed_dispose_key:
  "disposed (dispose_key s k) = disposed s @ (case c_map s k of None \<Rightarrow> [] | Some e \<Rightarrow> [disposable e])"
  by (simp add: dispose_key_def split: option.splits)

lemma disposed_delete:
  "disposed (delete k s) = disposed s @ (case c_map s k of None \<Rightarrow> [] | Some e \<Rightarrow> [disposable e])"
  by (simp add: delete_def disposed_dispose_key c_map_update disposed_update split: option.splits)

lemma update_Some_D:
  "c_map (update k r c s) k' = Some e' \<Longrightarrow> \<exists>e. c_map s k' = Some e \<and> disposable e' = disposable e"
  by (auto simp: c_map_update_cases split: if_splits)

lemma disposers_ok_update:
  assumes "disposers_ok D s"
  shows "disposers_ok D (update k r c s)"
proof -
  have 1: "distinct (disposed (update k r c s))" "set (disposed (update k r c s)) \<subseteq> D"
    using assms by (simp_all add: disposers_ok_def disposed_update)
  have 2: "disposable e' \<in> D \<and> disposable e' \<notin> set (disposed (update k r c s))"
    if "c_map (update k r c s) k' = Some e'" for k' e'
  proof -
    from update_Some_D [OF that] obtain e where "c_map s k' = Some e" "disposable e' = disposable e"
      by blast
    with assms show ?thesis by (simp add: disposers_ok_def disposed_update)
  qed
  have 3: "disposable e1 \<noteq> disposable e2"
    if "c_map (update k r c s) k1 = Some e1" "c_map (update k r c s) k2 = Some e2" "k1 \<noteq> k2"
    for k1 k2 e1 e2
  proof -
    from update_Some_D [OF that(1)] obtain a where a: "c_map s k1 = Some a" "disposable e1 = disposable a"
      by blast
    from update_Some_D [OF that(2)] obtain b where b: "c_map s k2 = Some b" "disposable e2 = disposable b"
      by blast
    from assms a(1) b(1) that(3) have "disposable a \<noteq> disposable b"
      unfolding disposers_ok_def by blast
    with a b show ?thesis by simp
  qed
  show ?thesis unfolding disposers_ok_def using 1 2 3 by blast
qed


lemma disposers_ok_poistionMap [simp]:
  "disposers_ok D (s\<lparr>c_poistionMap := pm\<rparr>) = disposers_ok D s"
  by (simp add: disposers_ok_def)

lemma disposers_ok_dispose_key:
  assumes "disposers_ok D s"
  shows "disposers_ok D (dispose_key s k)"
proof (cases "c_map s k")
  case None
  then have "dispose_key s k = s\<lparr>c_map := (c_map s)(k := None)\<rparr>" by (simp add: dispose_key_def)
  with assms show ?thesis unfolding disposers_ok_def by (auto split: if_splits)
next
  case (Some e)
  then have eq: "disposed (dispose_key s k) = disposed s @ [disposable e]"
    "c_map (dispose_key s k) = (c_map s)(k := None)"
    by (simp_all add: dispose_key_def)
  from assms Some have new: "disposable e \<in> D" "disposable e \<notin> set (disposed s)"
    unfolding disposers_ok_def by blast+
  have other: "disposable e' \<noteq> disposable e" if "c_map s k' = Some e'" "k' \<noteq> k" for k' e'
    using assms Some that unfolding disposers_ok_def by blast
  have 1: "distinct (disposed (dispose_key s k))" "set (disposed (dispose_key s k)) \<subseteq> D"
    using assms new by (simp_all add: eq disposers_ok_def)
  have 2: "disposable e' \<in> D \<and> disposable e' \<notin> set (disposed (dispose_key s k))"
    if "c_map (dispose_key s k) k' = Some e'" for k' e'
  proof -
    from that have k': "k' \<noteq> k" "c_map s k' = Some e'" by (auto simp: eq split: if_splits)
    from assms k'(2) have "disposable e' \<in> D" "disposable e' \<notin> set (disposed s)"
      unfolding disposers_ok_def by blast+
    with other [OF k'(2) k'(1)] show ?thesis by (simp add: eq)
  qed
  have 3: "disposable e1 \<noteq> disposable e2"
    if "c_map (dispose_key s k) k1 = Some e1" "c_map (dispose_key s k) k2 = Some e2" "k1 \<noteq> k2"
    for k1 k2 e1 e2
  proof -
    from that have "c_map s k1 = Some e1" "c_map s k2 = Some e2" by (auto simp: eq split: if_splits)
    with assms that(3) show ?thesis unfolding disposers_ok_def by blast
  qed
  show ?thesis unfolding disposers_ok_def using 1 2 3 by blast
qed

lemma disposers_ok_foldl_dispose_key:
  "disposers_ok D s \<Longrightarrow> disposers_ok D (foldl dispose_key s ks)"
  by (induction ks arbitrary: s) (simp_all add: disposers_ok_dispose_key)

lemma disposers_ok_delete: "disposers_ok D s \<Longrightarrow> disposers_ok D (delete k s)"
  by (simp add: delete_def disposers_ok_dispose_key disposers_ok_update)

lemma disposers_ok_deleteByPosition: "disposers_ok D s \<Longrightarrow> disposers_ok D (deleteByPosition r c s)"
  by (simp add: deleteByPosition_def disposers_ok_foldl_dispose_key split: option.splits)

lemma c_map_set_entry_eq: "c_map (set_entry k e s) = (c_map s)(k \<mapsto> e)"
  by (simp add: c_map_set_entry)

lemma disposed_set_entry: "disposed (set_entry k e s) = disposed s"
  by (simp add: set_entry_def disposed_update)

lemma disposers_ok_set_entry:
  assumes "disposers_ok D s" and "disposable e \<notin> D"
  shows "disposers_ok (insert (disposable e) D) (set_entry k e s)"
proof -
  have 1: "distinct (disposed (set_entry k e s))"
    "set (disposed (set_entry k e s)) \<subseteq> insert (disposable e) D"
    using assms(1) by (auto simp: disposed_set_entry disposers_ok_def)
  have old: "disposable e' \<in> D \<and> disposable e' \<notin> set (disposed s)" if "c_map s k' = Some e'" for k' e'
    using assms(1) that unfolding disposers_ok_def by blast
  have fresh: "disposable e \<notin> set (disposed s)"
    using assms unfolding disposers_ok_def by blast
  have 2: "disposable e' \<in> insert (disposable e) D \<and> disposable e' \<notin> set (disposed (set_entry k e s))"
    if "c_map (set_entry k e s) k' = Some e'" for k' e'
    using that old fresh by (auto simp: c_map_set_entry_eq disposed_set_entry split: if_splits)
  have 3: "disposable e1 \<noteq> disposable e2"
    if "c_map (set_entry k e s) k1 = Some e1" "c_map (set_entry k e s) k2 = Some e2" "k1 \<noteq> k2"
    for k1 k2 e1 e2
  proof (cases "k1 = k")
    case True
    with that have "e1 = e" "c_map s k2 = Some e2" by (auto simp: c_map_set_entry_eq)
    with old [of k2 e2] assms(2) show ?thesis by auto
  next
    case False
    note k1 = this
    show ?thesis
    proof (cases "k2 = k")
      case True
      with that k1 have "e2 = e" "c_map s k1 = Some e1" by (auto simp: c_map_set_entry_eq)
      with old [of k1 e1] assms(2) show ?thesis by auto
    next
      case False
      with that k1 have "c_map s k1 = Some e1" "c_map s k2 = Some e2" by (auto simp: c_map_set_entry_eq)
      with assms(1) that(3) show ?thesis unfolding disposers_ok_def by blast
    qed
  qed
  show ?thesis unfolding disposers_ok_def using 1 2 3 by blast
qed

lemma disposers_ok_mono: "disposers_ok D s \<Longrightarrow> D \<subseteq> D' \<Longrightarrow> disposers_ok D' s"
  unfolding disposers_ok_def by blast

lemma run_snoc: "run (ops @ [op]) = apply_op (run ops) op"
  by (simp add: run_def)

lemma created_snoc: "created (ops @ [op]) = created ops @ op_disposers op"
  by (simp add: created_def)

lemma disposers_ok_run: "distinct (created ops) \<Longrightarrow> disposers_ok (set (created ops)) (run ops)"
proof (induction ops rule: rev_induct)
  case Nil
  show ?case by (simp add: run_def created_def empty_cache_def disposers_ok_def)
next
  case (snoc op ops)
  from snoc.prems have d: "distinct (created ops)" by (simp add: created_snoc)
  note ih = snoc.IH [OF d]
  show ?case
  proof (cases op)
    case (Set k e)
    with snoc.prems have "disposable e \<notin> set (created ops)" by (simp add: created_snoc)
    from disposers_ok_set_entry [OF ih this] show ?thesis
      by (simp add: run_snoc created_snoc Set)
  next
    case (Update k r c)
    with ih show ?thesis by (simp add: run_snoc created_snoc disposers_ok_update)
  next
    case (Delete k)
    with ih show ?thesis by (simp add: run_snoc created_snoc disposers_ok_delete)
  next
    case (DeleteByPosition r c)
    with ih show ?thesis by (simp add: run_snoc created_snoc disposers_ok_deleteByPosition)
  qed
qed

lemma disposed_foldl_dispose_key_mem:
  "k \<in> set ks \<Longrightarrow> c_map s k = Some e \<Longrightarrow> disposable e \<in> set (disposed (foldl dispose_key s ks))"
proof (induction ks arbitrary: s)
  case Nil
  then show ?case by simp
next
  case (Cons a ks)
  have grow: "set (disposed t) \<subseteq> set (disposed (foldl dispose_key t xs))" for t xs
  proof (induction xs arbitrary: t)
    case Nil
    show ?case by simp
  next
    case (Cons x xs)
    have "set (disposed t) \<subseteq> set (disposed (dispose_key t x))"
      by (auto simp: disposed_dispose_key)
    also have "\<dots> \<subseteq> set (disposed (foldl dispose_key (dispose_key t x) xs))"
      by (rule Cons.IH)
    finally show ?case by simp
  qed
  show ?case
  proof (cases "a = k")
    case True
    with Cons.prems have "disposable e \<in> set (disposed (dispose_key s a))"
      by (simp add: disposed_dispose_key)
    with grow [of "dispose_key s a" ks] show ?thesis by auto
  next
    case False
    with Cons.prems have "k \<in> set ks" "c_map (dispose_key s a) k = Some e"
      by (auto simp: c_map_dispose_key)
    from Cons.IH [OF this] show ?thesis by simp
  qed
qed

lemma disposed_deleteByPosition_mem:
  "k \<in> set (positionBucket s r c) \<Longrightarrow> c_map s k = Some e
   \<Longrightarrow> disposable e \<in> set (disposed (deleteByPosition r c s))"
  by (auto simp: deleteByPosition_def positionBucket_def disposed_foldl_dispose_key_mem
        split: option.splits)

lemma count_list_distinct: "distinct xs \<Longrightarrow> x \<in> set xs \<Longrightarrow> count_list xs x = 1"
  by (induction xs) auto

lemma set_set_add [simp]: "set (set_add k xs) = insert k (set xs)"
  by (auto simp: set_add_def)

lemma set_set_delete [simp]: "set (set_delete k xs) = set xs - {k}"
  by (auto simp: set_delete_def)

lemma read_truthy_inherited: "k \<in> set Object_prototype_names \<Longrightarrow> read_truthy m k"
  by (simp add: read_truthy_def)

lemma read_truthy_entry: "m k \<noteq> None \<Longrightarrow> read_truthy m k"
  by (simp add: read_truthy_def)

lemma read_truthy_ordinary:
  "k \<notin> set Object_prototype_names \<Longrightarrow> m ''__proto__'' = None \<Longrightarrow> read_truthy m k \<longleftrightarrow> m k \<noteq> None"
  by (simp add: read_truthy_def)

lemma proto_inherited: "''__proto__'' \<in> set Object_prototype_names"
  by (simp add: Object_prototype_names_def)

lemma cache_ok_keys_agree: "cache_ok s \<Longrightarrow> keys_agree s"
  by (simp add: cache_ok_def)

lemma cache_ok_no_inherited: "cache_ok s \<Longrightarrow> k \<in> set Object_prototype_names \<Longrightarrow> c_map s k = None"
  by (auto simp: cache_ok_def)

lemma no_proto_entry: "cache_ok s \<Longrightarrow> getByPosition s r c ''__proto__'' = None"
  using cache_ok_no_inherited [OF _ proto_inherited, of s]
  by (simp add: getByPosition_keys_agree [OF cache_ok_keys_agree])

lemma read_truthy_cache_ok:
  "cache_ok s \<Longrightarrow>
   read_truthy (getByPosition s r c) k \<longleftrightarrow>
     k \<in> set Object_prototype_names \<or> getByPosition s r c k \<noteq> None"
  by (simp add: read_truthy_def no_proto_entry)

lemma sc_loads_handleKey:
  "drawings doc = Some ds \<Longrightarrow> k \<notin> set Object_prototype_names \<Longrightarrow> snap ''__proto__'' = None \<Longrightarrow>
   sc_loads (handleKey r c doc snap st k) = sc_loads st @ load_of snap ds k"
  by (simp add: handleKey_def load_of_def Let_def read_truthy_ordinary split: option.splits)

lemma sc_loads_foldl_handleKey:
  "drawings doc = Some ds \<Longrightarrow> \<forall>k\<in>set ks. k \<notin> set Object_prototype_names \<Longrightarrow>
   snap ''__proto__'' = None \<Longrightarrow>
   sc_loads (foldl (handleKey r c doc snap) st ks) = sc_loads st @ concat (map (load_of snap ds) ks)"
  by (induction ks arbitrary: st) (simp_all add: sc_loads_handleKey)

lemma loaded_keys:
  "map fst (concat (map (load_of snap ds) ks)) = filter (\<lambda>k. snap k = None \<and> ds k \<noteq> None) ks"
  by (induction ks) (auto simp: load_of_def split: option.splits)

lemma load_sources:
  "(k, src) \<in> set (concat (map (load_of snap ds) ks)) \<Longrightarrow> \<exists>dr. ds k = Some dr \<and> src = source dr"
  by (auto simp: load_of_def split: option.splits) metis

lemma sc_cache_handleKey:
  "sc_cache (handleKey r c doc snap st k) =
     (if read_truthy snap k then sc_cache st
      else
        (case drawings doc of
           None \<Rightarrow> sc_cache st
         | Some ds \<Rightarrow>
             set_entry k (new_item k r c (sc_nextDisposable st) (drawing_image (ds k))) (sc_cache st)))"
  by (simp add: handleKey_def Let_def split: option.splits)

lemma handleKey_skip: "read_truthy snap k \<or> drawings doc = None \<Longrightarrow> handleKey r c doc snap st k = st"
  by (auto simp: handleKey_def split: option.splits)

lemma foldl_handleKey_skip:
  "(\<forall>k\<in>set ks. read_truthy snap k) \<or> drawings doc = None \<Longrightarrow>
   foldl (handleKey r c doc snap) st ks = st"
  by (induction ks arbitrary: st) (auto simp: handleKey_skip)

lemma positionBucket_set_entry:
  "positionBucket (set_entry k e s) r c =
     (if r = row e \<and> c = col e then
        (if row e = -1 \<or> col e = -1 then set_delete k (positionBucket s r c)
         else set_add k (set_delete k (positionBucket s r c)))
      else positionBucket s r c)"
  by (simp add: set_entry_def positionBucket_update)

lemma set_entry_cached:
  assumes "keys_agree s" and "key e = k" and "row e = r" and "col e = c" and "r \<noteq> -1" and "c \<noteq> -1"
  shows "getByPosition (set_entry k e s) r c k \<noteq> None"
    and "getByPosition s r c k' \<noteq> None \<Longrightarrow> getByPosition (set_entry k e s) r c k' \<noteq> None"
proof -
  have ka: "keys_agree (set_entry k e s)" using assms(1,2) by (rule keys_agree_set_entry)
  have b: "set (positionBucket (set_entry k e s) r c) = insert k (set (positionBucket s r c))"
    using assms(3-6) by (auto simp: positionBucket_set_entry)
  show "getByPosition (set_entry k e s) r c k \<noteq> None"
    by (simp add: getByPosition_keys_agree [OF ka] b c_map_set_entry)
  assume "getByPosition s r c k' \<noteq> None"
  then have "k' \<in> set (positionBucket s r c)" "c_map s k' \<noteq> None"
    by (auto simp: getByPosition_keys_agree [OF assms(1)] split: if_splits)
  then show "getByPosition (set_entry k e s) r c k' \<noteq> None"
    by (simp add: getByPosition_keys_agree [OF ka] b c_map_set_entry)
qed

lemma cache_ok_empty: "cache_ok empty_cache"
  by (simp add: cache_ok_def keys_agree_empty) (simp add: empty_cache_def)

lemma cache_ok_update: "cache_ok s \<Longrightarrow> cache_ok (update k r c s)"
  by (auto simp: cache_ok_def keys_agree_update c_map_update_cases dom_def)

lemma cache_ok_delete: "cache_ok s \<Longrightarrow> cache_ok (delete k s)"
  by (auto simp: cache_ok_def keys_agree_delete c_map_delete dom_def split: if_splits)

lemma cache_ok_deleteByPosition: "cache_ok s \<Longrightarrow> cache_ok (deleteByPosition r c s)"
  by (auto simp: cache_ok_def keys_agree_deleteByPosition c_map_deleteByPosition dom_def
        split: if_splits)

lemma cache_ok_set_entry:
  "cache_ok s \<Longrightarrow> key e = k \<Longrightarrow> k \<notin> set Object_prototype_names \<Longrightarrow> cache_ok (set_entry k e s)"
  by (auto simp: cache_ok_def keys_agree_set_entry c_map_set_entry_eq dom_def split: if_splits)

lemma cache_ok_watchCallback: "cache_ok s \<Longrightarrow> cache_ok (watchCallback k after s)"
  by (cases after) (simp_all add: watchCallback_def cache_ok_update cache_ok_delete)

lemma cache_ok_handleKey:
  assumes "cache_ok (sc_cache st)"
  shows "cache_ok (sc_cache (handleKey r c doc snap st k))"
proof (cases "read_truthy snap k \<or> drawings doc = None")
  case True
  then have "handleKey r c doc snap st k = st" by (rule handleKey_skip)
  with assms show ?thesis by simp
next
  case False
  then obtain ds where ds: "drawings doc = Some ds" and nt: "\<not> read_truthy snap k" by auto
  from nt have "k \<notin> set Object_prototype_names" by (auto simp: read_truthy_def)
  with assms show ?thesis
    by (simp add: sc_cache_handleKey ds nt cache_ok_set_entry new_item_def)
qed

lemma handleKey_cached_mono:
  assumes "keys_agree (sc_cache st)" and "r \<noteq> -1" and "c \<noteq> -1"
    and "getByPosition (sc_cache st) r c k' \<noteq> None"
  shows "getByPosition (sc_cache (handleKey r c doc snap st k)) r c k' \<noteq> None"
proof (cases "read_truthy snap k \<or> drawings doc = None")
  case True
  then have "handleKey r c doc snap st k = st" by (rule handleKey_skip)
  with assms(4) show ?thesis by simp
next
  case False
  then obtain ds where ds: "drawings doc = Some ds" and nt: "\<not> read_truthy snap k" by auto
  let ?e = "new_item k r c (sc_nextDisposable st) (drawing_image (ds k))"
  have "getByPosition (set_entry k ?e (sc_cache st)) r c k' \<noteq> None"
    by (rule set_entry_cached(2) [OF assms(1) _ _ _ assms(2,3,4)]) (simp_all add: new_item_def)
  then show ?thesis by (simp add: sc_cache_handleKey ds nt)
qed

lemma handleKey_cached_self:
  assumes "keys_agree (sc_cache st)" and "r \<noteq> -1" and "c \<noteq> -1"
    and "drawings doc = Some ds" and "\<not> read_truthy snap k"
  shows "getByPosition (sc_cache (handleKey r c doc snap st k)) r c k \<noteq> None"
proof -
  let ?e = "new_item k r c (sc_nextDisposable st) (drawing_image (ds k))"
  have "getByPosition (set_entry k ?e (sc_cache st)) r c k \<noteq> None"
    by (rule set_entry_cached(1) [OF assms(1) _ _ _ assms(2,3)]) (simp_all add: new_item_def)
  then show ?thesis by (simp add: sc_cache_handleKey assms(4,5))
qed

lemma foldl_handleKey_cached:
  assumes "r \<noteq> -1" and "c \<noteq> -1"
  shows "cache_ok (sc_cache st) \<Longrightarrow>
     cache_ok (sc_cache (foldl (handleKey r c doc snap) st ks))
   \<and> (\<forall>k'. getByPosition (sc_cache st) r c k' \<noteq> None \<longrightarrow>
          getByPosition (sc_cache (foldl (handleKey r c doc snap) st ks)) r c k' \<noteq> None)
   \<and> (\<forall>ds. drawings doc = Some ds \<longrightarrow> (\<forall>k\<in>set ks. \<not> read_truthy snap k \<longrightarrow>
          getByPosition (sc_cache (foldl (handleKey r c doc snap) st ks)) r c k \<noteq> None))"
proof (induction ks arbitrary: st)
  case Nil
  then show ?case by simp
next
  case (Cons a ks)
  let ?st1 = "handleKey r c doc snap st a"
  have ok1: "cache_ok (sc_cache ?st1)" using Cons.prems by (rule cache_ok_handleKey)
  note ih = Cons.IH [OF ok1]
  have ka: "keys_agree (sc_cache st)" using Cons.prems by (rule cache_ok_keys_agree)
  have mono1: "getByPosition (sc_cache ?st1) r c k' \<noteq> None"
    if "getByPosition (sc_cache st) r c k' \<noteq> None" for k'
    using handleKey_cached_mono [OF ka assms that] .
  have self1: "getByPosition (sc_cache ?st1) r c a \<noteq> None"
    if "drawings doc = Some ds" "\<not> read_truthy snap a" for ds
    using ka assms that by (rule handleKey_cached_self [where snap = snap and k = a])
  from ih mono1 self1 show ?case by (simp; blast)
qed

lemma cache_ok_foldl_handleKey:
  "cache_ok (sc_cache st) \<Longrightarrow> cache_ok (sc_cache (foldl (handleKey r c doc snap) st ks))"
  by (induction ks arbitrary: st) (simp_all add: cache_ok_handleKey)

lemma deleteByPosition_idem:
  "deleteByPosition r c (deleteByPosition r c s) = deleteByPosition r c s"
  by (simp add: deleteByPosition_def split: option.splits)


lemma handleCell_drawings:
  "cell_p cd = Some doc \<Longrightarrow> drawingsOrder doc = Some ks \<Longrightarrow> ks \<noteq> [] \<Longrightarrow>
   handleCell st (r, c, Some cd)
     = foldl (handleKey r c doc (getByPosition (sc_cache st) r c)) st ks"
  by (simp add: handleCell_def)

lemma handleCell_evict:
  "evicting cell \<Longrightarrow>
   handleCell st (r, c, cell) = st\<lparr>sc_cache := deleteByPosition r c (sc_cache st)\<rparr>"
  by (auto simp: handleCell_def evicting_def split: option.splits)

lemma not_evicting:
  "\<not> evicting cell \<Longrightarrow>
   \<exists>cd doc ks. ks \<noteq> [] \<and> drawingsOrder doc = Some ks \<and> cell_p cd = Some doc \<and> cell = Some cd"
  by (cases cell) (auto simp: evicting_def split: option.splits)

lemma handleCell_idem:
  assumes "cache_ok (sc_cache st)" and "r \<noteq> -1" and "c \<noteq> -1"
  shows "handleCell (handleCell st (r, c, cell)) (r, c, cell) = handleCell st (r, c, cell)"
proof (cases "evicting cell")
  case True
  then show ?thesis by (simp add: handleCell_evict deleteByPosition_idem)
next
  case False
  from not_evicting [OF this] obtain cd doc ks
    where ks: "cell_p cd = Some doc" "drawingsOrder doc = Some ks" "ks \<noteq> []"
      and cell: "cell = Some cd"
    by blast
  let ?snap = "getByPosition (sc_cache st) r c"
  let ?st1 = "foldl (handleKey r c doc ?snap) st ks"
  let ?snap1 = "getByPosition (sc_cache ?st1) r c"
  note f = foldl_handleKey_cached [OF assms(2,3) assms(1), of doc ?snap ks]
  have "(\<forall>k\<in>set ks. read_truthy ?snap1 k) \<or> drawings doc = None"
  proof (cases "drawings doc")
    case None
    then show ?thesis by simp
  next
    case (Some ds)
    have "read_truthy ?snap1 k" if "k \<in> set ks" for k
    proof (cases "read_truthy ?snap k")
      case True
      then have "k \<in> set Object_prototype_names \<or> ?snap k \<noteq> None"
        by (simp add: read_truthy_cache_ok [OF assms(1)])
      then show ?thesis
      proof
        assume "k \<in> set Object_prototype_names"
        then show ?thesis by (rule read_truthy_inherited)
      next
        assume "?snap k \<noteq> None"
        with f have "?snap1 k \<noteq> None" by blast
        then show ?thesis by (rule read_truthy_entry)
      qed
    next
      case False
      with f Some that have "?snap1 k \<noteq> None" by blast
      then show ?thesis by (rule read_truthy_entry)
    qed
    then show ?thesis by blast
  qed
  then have "foldl (handleKey r c doc ?snap1) ?st1 ks = ?st1" by (rule foldl_handleKey_skip)
  then show ?thesis by (simp add: cell handleCell_drawings [OF ks])
qed

lemma cache_ok_handleCell: "cache_ok (sc_cache st) \<Longrightarrow> cache_ok (sc_cache (handleCell st rc))"
  by (cases rc)
     (auto simp: handleCell_def cache_ok_deleteByPosition cache_ok_foldl_handleKey
        split: option.splits)

lemma cache_ok_handleCells: "cache_ok (sc_cache st) \<Longrightarrow> cache_ok (sc_cache (handleCells st matrix))"
  unfolding handleCells_def
  by (induction matrix arbitrary: st) (simp_all add: cache_ok_handleCell)

lemma cache_ok_apply_scope_op: "cache_ok (sc_cache st) \<Longrightarrow> cache_ok (sc_cache (apply_scope_op st op))"
  by (cases op) (simp_all add: cache_ok_handleCells cache_ok_watchCallback)

lemma cache_ok_foldl_scope:
  "cache_ok (sc_cache st) \<Longrightarrow> cache_ok (sc_cache (foldl apply_scope_op st ops))"
  by (induction ops arbitrary: st) (simp_all add: cache_ok_apply_scope_op)

lemma cache_ok_run_scope: "cache_ok (sc_cache (run_scope ops))"
  unfolding run_scope_def
  by (rule cache_ok_foldl_scope) (simp add: empty_scope_def cache_ok_empty)

text \<open>
  In every state reached from the empty cache an entry is in the bucket of its own
  coordinates, so \<^verbatim>\<open>deleteByPosition\<close> at those coordinates removes it and calls its
  disposer. The converse fails, see C1 and C8 below.
\<close>

lemma c_poistionMap_foldl_dispose_key:
  "c_poistionMap (foldl dispose_key s ks) = c_poistionMap s"
  by (induction ks arbitrary: s) (simp_all add: dispose_key_def split: option.splits)

lemma positionBucket_deleteByPosition:
  "positionBucket (deleteByPosition r c s) r' c' =
     (if r' = r \<and> c' = c then [] else positionBucket s r' c')"
  by (auto simp: deleteByPosition_def positionBucket_def c_poistionMap_foldl_dispose_key
        split: option.splits)

lemma positionBucket_delete:
  "r \<noteq> -1 \<Longrightarrow> positionBucket (delete k s) r c = positionBucket s r c"
  by (simp add: delete_def positionBucket_update)

lemma in_own_bucket_update:
  assumes "in_own_bucket s"
  shows "in_own_bucket (update k r c s)"
  unfolding in_own_bucket_def
proof (intro allI impI)
  fix k' e'
  assume e': "c_map (update k r c s) k' = Some e'" and nz: "row e' \<noteq> -1" "col e' \<noteq> -1"
  show "k' \<in> set (positionBucket (update k r c s) (row e') (col e'))"
  proof (cases "k' = k")
    case True
    with e' have "row e' = r" "col e' = c" "c_map s k \<noteq> None"
      by (auto simp: c_map_update split: option.splits)
    with nz True show ?thesis by (simp add: positionBucket_update)
  next
    case False
    with e' have old: "c_map s k' = Some e'" by (auto simp: c_map_update split: option.splits)
    with assms nz have "k' \<in> set (positionBucket s (row e') (col e'))"
      unfolding in_own_bucket_def by blast
    with False nz show ?thesis by (auto simp: positionBucket_update)
  qed
qed

lemma in_own_bucket_set_entry:
  assumes "in_own_bucket s"
  shows "in_own_bucket (set_entry k e s)"
  unfolding in_own_bucket_def
proof (intro allI impI)
  fix k' e'
  assume e': "c_map (set_entry k e s) k' = Some e'" and nz: "row e' \<noteq> -1" "col e' \<noteq> -1"
  show "k' \<in> set (positionBucket (set_entry k e s) (row e') (col e'))"
  proof (cases "k' = k")
    case True
    with e' have "e' = e" by (simp add: c_map_set_entry_eq)
    with nz show ?thesis by (simp add: positionBucket_set_entry True)
  next
    case False
    with e' have old: "c_map s k' = Some e'" by (simp add: c_map_set_entry_eq)
    with assms nz have "k' \<in> set (positionBucket s (row e') (col e'))"
      unfolding in_own_bucket_def by blast
    with False nz show ?thesis by (auto simp: positionBucket_set_entry)
  qed
qed

lemma in_own_bucket_delete:
  assumes "in_own_bucket s"
  shows "in_own_bucket (delete k s)"
  using assms unfolding in_own_bucket_def
  by (auto simp: c_map_delete positionBucket_delete split: if_splits)

lemma in_own_bucket_deleteByPosition:
  assumes "in_own_bucket s"
  shows "in_own_bucket (deleteByPosition r c s)"
  unfolding in_own_bucket_def
proof (intro allI impI)
  fix k' e'
  assume e': "c_map (deleteByPosition r c s) k' = Some e'" and nz: "row e' \<noteq> -1" "col e' \<noteq> -1"
  from e' have out: "k' \<notin> set (positionBucket s r c)" and old: "c_map s k' = Some e'"
    by (auto simp: c_map_deleteByPosition split: if_splits)
  from assms old nz have own: "k' \<in> set (positionBucket s (row e') (col e'))"
    unfolding in_own_bucket_def by blast
  with out have "\<not> (row e' = r \<and> col e' = c)" by auto
  with own show "k' \<in> set (positionBucket (deleteByPosition r c s) (row e') (col e'))"
    by (simp add: positionBucket_deleteByPosition)
qed

lemma in_own_bucket_run: "in_own_bucket (run ops)"
proof (induction ops rule: rev_induct)
  case Nil
  show ?case by (simp add: run_def in_own_bucket_def empty_cache_def)
next
  case (snoc op ops)
  then show ?case
    by (cases op)
       (simp_all add: run_snoc in_own_bucket_set_entry in_own_bucket_update in_own_bucket_delete
          in_own_bucket_deleteByPosition)
qed

lemma deleteByPosition_removes_entries_there:
  assumes "c_map (run ops) k = Some e" and "row e \<noteq> -1" and "col e \<noteq> -1"
  shows "k \<in> set (positionBucket (run ops) (row e) (col e))"
    and "c_map (deleteByPosition (row e) (col e) (run ops)) k = None"
    and "disposable e \<in> set (disposed (deleteByPosition (row e) (col e) (run ops)))"
proof -
  from in_own_bucket_run [of ops] assms
  show kb: "k \<in> set (positionBucket (run ops) (row e) (col e))"
    unfolding in_own_bucket_def by blast
  then show "c_map (deleteByPosition (row e) (col e) (run ops)) k = None"
    by (simp add: c_map_deleteByPosition)
  from kb assms(1) show "disposable e \<in> set (disposed (deleteByPosition (row e) (col e) (run ops)))"
    by (rule disposed_deleteByPosition_mem)
qed

lemma makeRecord_has_key: "e \<in> set xs \<Longrightarrow> makeRecord xs (key e) \<noteq> None"
proof -
  have "foldl record_item m xs k \<noteq> None" if "m k \<noteq> None \<or> (\<exists>e\<in>set xs. key e = k)" for m k
    using that
  proof (induction xs arbitrary: m)
    case Nil
    then show ?case by simp
  next
    case (Cons a xs)
    have "record_item m a k \<noteq> None \<or> (\<exists>e\<in>set xs. key e = k)"
      using Cons.prems by (auto simp: record_item_def)
    from Cons.IH [of "record_item m a", OF this] show ?case by simp
  qed
  then show "e \<in> set xs \<Longrightarrow> makeRecord xs (key e) \<noteq> None"
    unfolding makeRecord_def by blast
qed

lemma getByPosition_has_entry:
  "k \<in> set (positionBucket s r c) \<Longrightarrow> c_map s k = Some e \<Longrightarrow> getByPosition s r c (key e) \<noteq> None"
  unfolding getByPosition_def by (rule makeRecord_has_key) (auto simp: items_iff)

lemma getByPosition_no_keys: "positionBucket s r c = [] \<Longrightarrow> getByPosition s r c = Map.empty"
  by (simp add: getByPosition_def getByPosition_items_def makeRecord_def)

lemma lookup_call: "is_lookup q \<Longrightarrow> \<exists>v. call s q = Inr (v, s)"
  by (cases q) simp_all

section \<open>Properties of the auto-width controller\<close>

lemma getUndoRedoParams_cases:
  assumes "currentUnit env = Some workbook"
    and "renderSkeleton env (wb_unitId workbook) = Some current"
  shows "getUndoRedoParamsOfColWidth env ranges =
     (case current of
        None \<Rightarrow> Inr no_mutations
      | Some calc \<Rightarrow>
          if sheetId (activeSheet workbook) = [] then Inr no_mutations
          else Inr (synthesized env workbook calc ranges))"
  using assms
  by (simp add: getUndoRedoParamsOfColWidth_def synthesized_def Let_def split: option.splits)

lemma if_else: "(if P then A else B) \<Longrightarrow> \<not> P \<Longrightarrow> B"
  by simp

section \<open>The claims\<close>

subsection \<open>C1: index coherence\<close>

text \<open>
  C1 says that a key present in \<^verbatim>\<open>_map\<close> with a position other than the sentinel is in
  the bucket of that position and in no other bucket. \<^verbatim>\<open>update\<close> deletes the key from
  the bucket of the \<^emph>\<open>new\<close> coordinates, not from the bucket the entry is leaving, so a
  move leaves the key behind. After \<^verbatim>\<open>set("k", {row: 0, col: 0})\<close> and
  \<^verbatim>\<open>update("k", 1, 1)\<close> the key is in the buckets of both (0,0) and (1,1), and the lookup
  at (0,0) returns the entry, whose fields say (1,1).
\<close>

theorem C1_key_in_two_buckets:
  "positionBucket (run [Set ''k'' (new_item ''k'' 0 0 7 blank_image), Update ''k'' 1 1]) 0 0 = [''k'']
 \<and> positionBucket (run [Set ''k'' (new_item ''k'' 0 0 7 blank_image), Update ''k'' 1 1]) 1 1 = [''k'']
 \<and> getByPosition (run [Set ''k'' (new_item ''k'' 0 0 7 blank_image), Update ''k'' 1 1]) 0 0 ''k''
      = Some (new_item ''k'' 1 1 7 blank_image)
 \<and> getByPosition (run [Set ''k'' (new_item ''k'' 0 0 7 blank_image), Update ''k'' 1 1]) 1 1 ''k''
      = Some (new_item ''k'' 1 1 7 blank_image)"
  by (simp add: cache_defs Let_def)

subsection \<open>C7: update of an absent key\<close>

text \<open>
  C7 says that \<^verbatim>\<open>update\<close> of a key that is not in \<^verbatim>\<open>_map\<close> changes nothing. The second
  half of \<^verbatim>\<open>update\<close> is outside the guard \<^verbatim>\<open>if (item)\<close>: on the empty cache
  \<^verbatim>\<open>update("k", 0, 0)\<close> creates the bucket of (0,0) with the key in it. The state differs
  from the empty cache, and the difference shows once the key is set elsewhere: an entry set
  at (5,5) is then also returned by the lookup at (0,0).
\<close>

theorem C7_update_absent_key_adds_to_bucket:
  "getByKey empty_cache ''k'' = None
 \<and> positionBucket empty_cache 0 0 = []
 \<and> positionBucket (update ''k'' 0 0 empty_cache) 0 0 = [''k'']
 \<and> update ''k'' 0 0 empty_cache \<noteq> empty_cache
 \<and> getByPosition (set_entry ''k'' (new_item ''k'' 5 5 7 blank_image) empty_cache) 0 0 ''k'' = None
 \<and> getByPosition (set_entry ''k'' (new_item ''k'' 5 5 7 blank_image) (update ''k'' 0 0 empty_cache)) 0 0 ''k''
      = Some (new_item ''k'' 5 5 7 blank_image)"
proof -
  have a: "positionBucket (update ''k'' 0 0 empty_cache) 0 0 = [''k'']"
    by (simp add: cache_defs Let_def)
  have b: "positionBucket empty_cache 0 0 = []"
    by (simp add: cache_defs)
  from a b have c: "update ''k'' 0 0 empty_cache \<noteq> empty_cache" by auto
  show ?thesis using a b c by (simp add: cache_defs Let_def)
qed

subsection \<open>C8: deleteByPosition\<close>

text \<open>
  C8 says that \<^verbatim>\<open>deleteByPosition(r, c)\<close> removes the entries whose position is (r,c) and
  no other. It removes the entries whose keys are in the bucket of (r,c), and that bucket
  keeps the keys of entries that have moved away: after \<^verbatim>\<open>set("k", {row: 0, col: 0})\<close> and
  \<^verbatim>\<open>update("k", 1, 1)\<close> the entry is at (1,1), and \<^verbatim>\<open>deleteByPosition(0, 0)\<close> removes it
  and calls its disposer.
\<close>

theorem C8_deleteByPosition_evicts_moved_entry:
  "getByKey (run [Set ''k'' (new_item ''k'' 0 0 7 blank_image), Update ''k'' 1 1]) ''k''
      = Some (new_item ''k'' 1 1 7 blank_image)
 \<and> getByKey (deleteByPosition 0 0
       (run [Set ''k'' (new_item ''k'' 0 0 7 blank_image), Update ''k'' 1 1])) ''k'' = None
 \<and> disposed (deleteByPosition 0 0
       (run [Set ''k'' (new_item ''k'' 0 0 7 blank_image), Update ''k'' 1 1])) = [7]"
  by (simp add: cache_defs Let_def)

subsection \<open>C10: position lookups return no dangling entry\<close>

text \<open>
  C10: in every state reached by calls of \<^verbatim>\<open>set\<close>, \<^verbatim>\<open>update\<close>, \<^verbatim>\<open>delete\<close> and
  \<^verbatim>\<open>deleteByPosition\<close> on the empty cache, where \<^verbatim>\<open>set\<close> is called as \<^verbatim>\<open>_handleMatrix\<close>
  calls it (the entry carries the key it is stored under), every entry in the record that
  \<^verbatim>\<open>getByPosition(r, c)\<close> returns is the entry \<^verbatim>\<open>getByKey\<close> returns for its key. A key left in
  a bucket with no entry in \<^verbatim>\<open>_map\<close> is therefore never in the record.
\<close>

theorem C10_position_lookup_not_dangling:
  assumes "list_all set_key_ok ops"
    and "getByPosition (run ops) r c k = Some e"
  shows "getByKey (run ops) k = Some e"
proof -
  have "keys_agree (run ops)" using assms(1) by (rule keys_agree_run)
  from getByPosition_keys_agree [OF this, of r c k] assms(2)
  show ?thesis by (simp add: getByKey_def split: if_splits)
qed

theorem C10_position_lookup_not_dangling_witness:
  "list_all set_key_ok
     [Set ''a'' (new_item ''a'' 2 3 0 blank_image), Delete ''a'',
      Set ''b'' (new_item ''b'' 2 3 1 blank_image)]
   \<and> positionBucket (run [Set ''a'' (new_item ''a'' 2 3 0 blank_image), Delete ''a'',
      Set ''b'' (new_item ''b'' 2 3 1 blank_image)]) 2 3 = [''a'', ''b'']
   \<and> getByPosition (run [Set ''a'' (new_item ''a'' 2 3 0 blank_image), Delete ''a'',
      Set ''b'' (new_item ''b'' 2 3 1 blank_image)]) 2 3 ''b'' = Some (new_item ''b'' 2 3 1 blank_image)
   \<and> getByKey (run [Set ''a'' (new_item ''a'' 2 3 0 blank_image), Delete ''a'',
      Set ''b'' (new_item ''b'' 2 3 1 blank_image)]) ''b'' = Some (new_item ''b'' 2 3 1 blank_image)"
proof -
  let ?ops = "[Set ''a'' (new_item ''a'' 2 3 0 blank_image), Delete ''a'',
      Set ''b'' (new_item ''b'' 2 3 1 blank_image)]"
  have 1: "list_all set_key_ok ?ops" by (simp add: new_item_def)
  have 2: "getByPosition (run ?ops) 2 3 ''b'' = Some (new_item ''b'' 2 3 1 blank_image)"
    by (simp add: cache_defs Let_def)
  have 3: "positionBucket (run ?ops) 2 3 = [''a'', ''b'']"
    by (simp add: cache_defs Let_def)
  from C10_position_lookup_not_dangling [OF 1 2] 1 2 3 show ?thesis by simp
qed

subsection \<open>C2: disposers\<close>

text \<open>
  C2 says that the disposer of every entry ever created is called exactly once. The code
  has no path that disposes an entry which \<^verbatim>\<open>set\<close> replaces, and the service has no
  teardown that walks the cache. When \<^verbatim>\<open>_handleMatrix\<close> meets the key \<^verbatim>\<open>k\<close> in the cells (0,0)
  and (1,1), \<^verbatim>\<open>watchRange\<close> gives out the handles 0 and 1, and the second entry replaces the
  first; when the watch then collapses, the cache is empty, handle 1 has been disposed and
  handle 0 never is.
\<close>

theorem C2_replaced_entry_never_disposed:
  "sc_watches (handleCells empty_scope [(0, 0, image_cell ''k'' ''u''), (1, 1, image_cell ''k'' ''u'')])
     = [(0, 0, 0, ''k''), (1, 1, 1, ''k'')]
 \<and> dom (c_map (watchCallback ''k'' None
       (sc_cache (handleCells empty_scope [(0, 0, image_cell ''k'' ''u''), (1, 1, image_cell ''k'' ''u'')]))))
     = {}
 \<and> disposed (watchCallback ''k'' None
       (sc_cache (handleCells empty_scope [(0, 0, image_cell ''k'' ''u''), (1, 1, image_cell ''k'' ''u'')])))
     = [1]"
  by (simp add: scope_defs cache_defs Let_def)

text \<open>
  C2 as amended: over every sequence of \<^verbatim>\<open>set\<close>, \<^verbatim>\<open>update\<close>, \<^verbatim>\<open>delete\<close> and
  \<^verbatim>\<open>deleteByPosition\<close> in which every \<^verbatim>\<open>set\<close> brings a new handle, no handle is disposed
  twice and only handles of entries that were set are disposed; the handle of an entry still
  in \<^verbatim>\<open>_map\<close> has not been disposed; \<^verbatim>\<open>delete\<close> of its key, and \<^verbatim>\<open>deleteByPosition\<close> of a
  position whose bucket holds its key, remove the entry and leave its handle disposed
  exactly once.
\<close>

theorem C2_disposer_at_most_once:
  assumes "distinct (created ops)"
  shows "distinct (disposed (run ops))
     \<and> set (disposed (run ops)) \<subseteq> set (created ops)
     \<and> (\<forall>k e. getByKey (run ops) k = Some e \<longrightarrow>
           disposable e \<notin> set (disposed (run ops))
         \<and> count_list (disposed (delete k (run ops))) (disposable e) = 1
         \<and> getByKey (delete k (run ops)) k = None)
     \<and> (\<forall>r c k e. k \<in> set (positionBucket (run ops) r c) \<and> getByKey (run ops) k = Some e \<longrightarrow>
           count_list (disposed (deleteByPosition r c (run ops))) (disposable e) = 1
         \<and> getByKey (deleteByPosition r c (run ops)) k = None)"
proof -
  have ok: "disposers_ok (set (created ops)) (run ops)"
    using assms by (rule disposers_ok_run)
  have a: "distinct (disposed (run ops))" "set (disposed (run ops)) \<subseteq> set (created ops)"
    using ok by (simp_all add: disposers_ok_def)
  have b: "disposable e \<notin> set (disposed (run ops))
         \<and> count_list (disposed (delete k (run ops))) (disposable e) = 1
         \<and> getByKey (delete k (run ops)) k = None"
    if "getByKey (run ops) k = Some e" for k e
  proof -
    from that have e: "c_map (run ops) k = Some e" by (simp add: getByKey_def)
    with ok have n: "disposable e \<notin> set (disposed (run ops))" unfolding disposers_ok_def by blast
    have "distinct (disposed (delete k (run ops)))"
      using disposers_ok_delete [OF ok, of k] by (simp add: disposers_ok_def)
    moreover have "disposable e \<in> set (disposed (delete k (run ops)))"
      using e by (simp add: disposed_delete)
    ultimately have "count_list (disposed (delete k (run ops))) (disposable e) = 1"
      by (rule count_list_distinct)
    with n show ?thesis by (simp add: getByKey_def c_map_delete)
  qed
  have c: "count_list (disposed (deleteByPosition r c (run ops))) (disposable e) = 1
         \<and> getByKey (deleteByPosition r c (run ops)) k = None"
    if "k \<in> set (positionBucket (run ops) r c) \<and> getByKey (run ops) k = Some e" for r c k e
  proof -
    from that have e: "c_map (run ops) k = Some e" and kb: "k \<in> set (positionBucket (run ops) r c)"
      by (simp_all add: getByKey_def)
    have "distinct (disposed (deleteByPosition r c (run ops)))"
      using disposers_ok_deleteByPosition [OF ok, of r c] by (simp add: disposers_ok_def)
    moreover have "disposable e \<in> set (disposed (deleteByPosition r c (run ops)))"
      using kb e by (rule disposed_deleteByPosition_mem)
    ultimately have "count_list (disposed (deleteByPosition r c (run ops))) (disposable e) = 1"
      by (rule count_list_distinct)
    with kb show ?thesis by (simp add: getByKey_def c_map_deleteByPosition)
  qed
  from a b c show ?thesis by blast
qed


theorem C2_disposer_at_most_once_witness:
  "distinct (created [Set ''a'' (new_item ''a'' 0 0 0 blank_image),
                      Set ''b'' (new_item ''b'' 0 0 1 blank_image), Update ''a'' 1 1])
   \<and> getByKey (run [Set ''a'' (new_item ''a'' 0 0 0 blank_image),
                      Set ''b'' (new_item ''b'' 0 0 1 blank_image), Update ''a'' 1 1]) ''a''
        = Some (new_item ''a'' 1 1 0 blank_image)
   \<and> count_list (disposed (delete ''a'' (run [Set ''a'' (new_item ''a'' 0 0 0 blank_image),
                      Set ''b'' (new_item ''b'' 0 0 1 blank_image), Update ''a'' 1 1]))) 0 = 1
   \<and> ''b'' \<in> set (positionBucket (run [Set ''a'' (new_item ''a'' 0 0 0 blank_image),
                      Set ''b'' (new_item ''b'' 0 0 1 blank_image), Update ''a'' 1 1]) 0 0)
   \<and> count_list (disposed (deleteByPosition 0 0 (run [Set ''a'' (new_item ''a'' 0 0 0 blank_image),
                      Set ''b'' (new_item ''b'' 0 0 1 blank_image), Update ''a'' 1 1]))) 1 = 1"
proof -
  let ?ops = "[Set ''a'' (new_item ''a'' 0 0 0 blank_image),
               Set ''b'' (new_item ''b'' 0 0 1 blank_image), Update ''a'' 1 1]"
  have d: "distinct (created ?ops)" by (simp add: created_def new_item_def)
  have ga: "getByKey (run ?ops) ''a'' = Some (new_item ''a'' 1 1 0 blank_image)"
    by (simp add: cache_defs Let_def)
  have gb: "getByKey (run ?ops) ''b'' = Some (new_item ''b'' 0 0 1 blank_image)"
    by (simp add: cache_defs Let_def)
  have kb: "''b'' \<in> set (positionBucket (run ?ops) 0 0)"
    by (simp add: cache_defs Let_def)
  note t = C2_disposer_at_most_once [OF d]
  from t ga have 1: "count_list (disposed (delete ''a'' (run ?ops))) (disposable (new_item ''a'' 1 1 0 blank_image)) = 1"
    by blast
  from t kb gb have 2: "count_list (disposed (deleteByPosition 0 0 (run ?ops))) (disposable (new_item ''b'' 0 0 1 blank_image)) = 1"
    by blast
  from 1 2 d ga kb show ?thesis by (simp add: new_item_def)
qed

subsection \<open>C5: the watch callback\<close>

text \<open>
  C5: take a cache whose entries are stored under their own keys, and an entry in it under
  the key of a watch callback. When the callback fires with \<^verbatim>\<open>after = null\<close>, the entry is
  gone from \<^verbatim>\<open>_map\<close>, no position lookup returns anything under its key, and its disposer
  has been called. When it fires with a rectangle, the entry stays, its disposer is not
  called, its fields are \<^verbatim>\<open>after.startRow\<close> and \<^verbatim>\<open>after.startColumn\<close>, and the position
  lookup there returns it.
\<close>

theorem C5_watch_callback_detaches_or_moves:
  assumes "keys_agree s" and "getByKey s k = Some e"
  shows "getByKey (watchCallback k None s) k = None
       \<and> (\<forall>r c. getByPosition (watchCallback k None s) r c k = None)
       \<and> disposed (watchCallback k None s) = disposed s @ [disposable e]
       \<and> getByKey (watchCallback k (Some after) s) k
           = Some (e\<lparr>row := startRow after, col := startColumn after\<rparr>)
       \<and> disposed (watchCallback k (Some after) s) = disposed s
       \<and> (startRow after \<noteq> -1 \<and> startColumn after \<noteq> -1 \<longrightarrow>
            getByPosition (watchCallback k (Some after) s) (startRow after) (startColumn after) k
              = Some (e\<lparr>row := startRow after, col := startColumn after\<rparr>))"
proof -
  from assms(2) have e: "c_map s k = Some e" by (simp add: getByKey_def)
  have del: "watchCallback k None s = delete k s" by (simp add: watchCallback_def)
  have upd: "watchCallback k (Some after) s = update k (startRow after) (startColumn after) s"
    by (simp add: watchCallback_def)
  have 1: "getByKey (delete k s) k = None" by (simp add: getByKey_def c_map_delete)
  have 2: "getByPosition (delete k s) r c k = None" for r c
    using getByPosition_keys_agree [OF keys_agree_delete [OF assms(1)], of k r c k]
    by (simp add: c_map_delete)
  have 3: "disposed (delete k s) = disposed s @ [disposable e]"
    using e by (simp add: disposed_delete)
  let ?s' = "update k (startRow after) (startColumn after) s"
  have 4: "getByKey ?s' k = Some (e\<lparr>row := startRow after, col := startColumn after\<rparr>)"
    using e by (simp add: getByKey_def c_map_update)
  have 5: "disposed ?s' = disposed s" by (rule disposed_update)
  have 6: "getByPosition ?s' (startRow after) (startColumn after) k
             = Some (e\<lparr>row := startRow after, col := startColumn after\<rparr>)"
    if "startRow after \<noteq> -1 \<and> startColumn after \<noteq> -1"
  proof -
    have "k \<in> set (positionBucket ?s' (startRow after) (startColumn after))"
      using that by (simp add: positionBucket_update)
    with getByPosition_keys_agree [OF keys_agree_update [OF assms(1)],
        of k "startRow after" "startColumn after" "startRow after" "startColumn after" k] 4
    show ?thesis by (simp add: getByKey_def)
  qed
  from 1 2 3 4 5 6 show ?thesis unfolding del upd by blast
qed

theorem C5_watch_callback_detaches_or_moves_witness:
  "keys_agree (run [Set ''img1'' (new_item ''img1'' 2 3 0 blank_image)])
 \<and> getByKey (run [Set ''img1'' (new_item ''img1'' 2 3 0 blank_image)]) ''img1''
     = Some (new_item ''img1'' 2 3 0 blank_image)
 \<and> getByKey (watchCallback ''img1'' None
       (run [Set ''img1'' (new_item ''img1'' 2 3 0 blank_image)])) ''img1'' = None
 \<and> getByPosition (watchCallback ''img1'' None
       (run [Set ''img1'' (new_item ''img1'' 2 3 0 blank_image)])) 2 3 ''img1'' = None
 \<and> disposed (watchCallback ''img1'' None
       (run [Set ''img1'' (new_item ''img1'' 2 3 0 blank_image)])) = [0]
 \<and> getByKey (watchCallback ''img1''
        (Some \<lparr>startRow = 3, endRow = 3, startColumn = 3, endColumn = 3\<rparr>)
        (run [Set ''img1'' (new_item ''img1'' 2 3 0 blank_image)])) ''img1''
     = Some (new_item ''img1'' 3 3 0 blank_image)
 \<and> getByPosition (watchCallback ''img1''
        (Some \<lparr>startRow = 3, endRow = 3, startColumn = 3, endColumn = 3\<rparr>)
        (run [Set ''img1'' (new_item ''img1'' 2 3 0 blank_image)])) 3 3 ''img1''
     = Some (new_item ''img1'' 3 3 0 blank_image)"
proof -
  let ?s = "run [Set ''img1'' (new_item ''img1'' 2 3 0 blank_image)]"
  let ?after = "\<lparr>startRow = 3, endRow = 3, startColumn = 3, endColumn = 3\<rparr>"
  have ka: "keys_agree ?s" by (rule keys_agree_run) (simp add: new_item_def)
  have g: "getByKey ?s ''img1'' = Some (new_item ''img1'' 2 3 0 blank_image)"
    by (simp add: cache_defs Let_def)
  have d: "disposed ?s = []" by (simp add: cache_defs Let_def)
  note t = C5_watch_callback_detaches_or_moves [OF ka g, of ?after]
  from t have "getByPosition (watchCallback ''img1'' None ?s) 2 3 ''img1'' = None" by blast
  with t ka g d show ?thesis by (simp add: new_item_def)
qed

subsection \<open>C6: loads\<close>

text \<open>
  C6 says that no second load is issued for a key while its entry is still loading.
  \<^verbatim>\<open>_handleMatrix\<close> asks the cache by position, not by key: a key that two cells hold is
  loaded for each of them, the second time while the entry made for the first cell is in
  \<^verbatim>\<open>_map\<close> with status \<^verbatim>\<open>'loading'\<close>.
\<close>

theorem C6_same_key_loaded_twice:
  "sc_loads (handleCells empty_scope [(0, 0, image_cell ''k'' ''u''), (1, 1, image_cell ''k'' ''u'')])
     = [(''k'', ''u''), (''k'', ''u'')]
 \<and> getByKey (sc_cache (handleCell empty_scope (0, 0, image_cell ''k'' ''u''))) ''k''
     = Some (new_item ''k'' 0 0 0 \<lparr>img_src = ''u'', img_width = 0, img_height = 0\<rparr>)
 \<and> status (new_item ''k'' 0 0 0 \<lparr>img_src = ''u'', img_width = 0, img_height = 0\<rparr>) = Loading"
  by (simp add: scope_defs cache_defs Let_def)

text \<open>
  C6 as amended. Take any state of a scope that runs of \<^verbatim>\<open>_handleMatrix\<close> and watch
  callbacks lead to, and a cell whose \<^verbatim>\<open>drawingsOrder\<close> is non-empty, names no key twice and
  names no property that every plain object inherits. The loads that the visit of the cell
  issues are, in the order of \<^verbatim>\<open>drawingsOrder\<close>, one for each key for which the record
  \<^verbatim>\<open>getByPosition(row, col)\<close>, read before the keys are handled, has no entry and whose
  drawing exists, each with the source of its drawing: at most one load for a key. A key
  the record has is skipped, and when the record has every key the visit changes nothing.
  Visiting any cell a second time, at coordinates other than the sentinel, changes nothing
  either, so it issues no load.
\<close>

theorem C6_load_only_when_position_lacks_key:
  assumes "drawingsOrder doc = Some ks" and "ks \<noteq> []" and "distinct ks"
    and "drawings doc = Some ds"
    and "\<forall>k\<in>set ks. k \<notin> set Object_prototype_names"
  shows "(\<exists>new.
            sc_loads (handleCell (run_scope ops) (r, c, Some \<lparr>cell_p = Some doc\<rparr>))
              = sc_loads (run_scope ops) @ new
          \<and> map fst new
              = filter (\<lambda>k. getByPosition (sc_cache (run_scope ops)) r c k = None \<and> ds k \<noteq> None) ks
          \<and> distinct (map fst new)
          \<and> (\<forall>k src. (k, src) \<in> set new \<longrightarrow> (\<exists>dr. ds k = Some dr \<and> src = source dr)))
       \<and> ((\<forall>k\<in>set ks. getByPosition (sc_cache (run_scope ops)) r c k \<noteq> None) \<longrightarrow>
            handleCell (run_scope ops) (r, c, Some \<lparr>cell_p = Some doc\<rparr>) = run_scope ops)
       \<and> (r \<noteq> -1 \<and> c \<noteq> -1 \<longrightarrow>
            handleCell (handleCell (run_scope ops) (r, c, cell)) (r, c, cell)
              = handleCell (run_scope ops) (r, c, cell))"
proof -
  let ?st = "run_scope ops"
  let ?snap = "getByPosition (sc_cache ?st) r c"
  let ?cell = "Some \<lparr>cell_p = Some doc\<rparr>"
  let ?new = "concat (map (load_of ?snap ds) ks)"
  have ok: "cache_ok (sc_cache ?st)" by (rule cache_ok_run_scope)
  have np: "?snap ''__proto__'' = None" using ok by (rule no_proto_entry)
  have visit: "handleCell ?st (r, c, ?cell) = foldl (handleKey r c doc ?snap) ?st ks"
    by (rule handleCell_drawings [OF _ assms(1,2)]) simp
  have 1: "sc_loads (handleCell ?st (r, c, ?cell)) = sc_loads ?st @ ?new"
    unfolding visit
    by (rule sc_loads_foldl_handleKey [where snap = "?snap", OF assms(4,5) np])
  have 2: "map fst ?new = filter (\<lambda>k. ?snap k = None \<and> ds k \<noteq> None) ks"
    by (rule loaded_keys)
  have 3: "distinct (map fst ?new)" unfolding 2 using assms(3) by simp
  have 4: "\<forall>k src. (k, src) \<in> set ?new \<longrightarrow> (\<exists>dr. ds k = Some dr \<and> src = source dr)"
    using load_sources by blast
  have a: "\<exists>new. sc_loads (handleCell ?st (r, c, ?cell)) = sc_loads ?st @ new
          \<and> map fst new = filter (\<lambda>k. ?snap k = None \<and> ds k \<noteq> None) ks
          \<and> distinct (map fst new)
          \<and> (\<forall>k src. (k, src) \<in> set new \<longrightarrow> (\<exists>dr. ds k = Some dr \<and> src = source dr))"
    using 1 2 3 4 by (intro exI [of _ ?new] conjI)
  have b: "handleCell ?st (r, c, ?cell) = ?st" if "\<forall>k\<in>set ks. ?snap k \<noteq> None"
  proof -
    from that have "(\<forall>k\<in>set ks. read_truthy ?snap k) \<or> drawings doc = None"
      by (simp add: read_truthy_entry)
    then show ?thesis unfolding visit by (rule foldl_handleKey_skip)
  qed
  have c: "handleCell (handleCell ?st (r, c, cell)) (r, c, cell) = handleCell ?st (r, c, cell)"
    if "r \<noteq> -1 \<and> c \<noteq> -1"
    using that by (intro handleCell_idem [OF ok]) simp_all
  from a b c show ?thesis by blast
qed

theorem C6_load_only_when_position_lacks_key_witness:
  "sc_loads (run_scope [HandleMatrix [(2, 3, image_cell ''k'' ''u'')]]) = [(''k'', ''u'')]
 \<and> sc_loads (handleCell (run_scope [HandleMatrix [(2, 3, image_cell ''k'' ''u'')]])
      (2, 3, Some \<lparr>cell_p = Some \<lparr>drawingsOrder = Some [''k'', ''j''],
                     drawings = Some [''k'' \<mapsto> \<lparr>source = ''u'', sourceIsUUID = False, transform = None\<rparr>,
                                      ''j'' \<mapsto> \<lparr>source = ''v'', sourceIsUUID = False, transform = None\<rparr>]\<rparr>\<rparr>))
     = [(''k'', ''u''), (''j'', ''v'')]
 \<and> handleCell (run_scope [HandleMatrix [(2, 3, image_cell ''k'' ''u'')]]) (2, 3, image_cell ''k'' ''u'')
     = run_scope [HandleMatrix [(2, 3, image_cell ''k'' ''u'')]]"
proof -
  let ?ops = "[HandleMatrix [(2, 3, image_cell ''k'' ''u'')]]"
  let ?st = "run_scope ?ops"
  let ?ds = "[''k'' \<mapsto> \<lparr>source = ''u'', sourceIsUUID = False, transform = None\<rparr>,
              ''j'' \<mapsto> \<lparr>source = ''v'', sourceIsUUID = False, transform = None\<rparr>]"
  let ?doc = "\<lparr>drawingsOrder = Some [''k'', ''j''], drawings = Some ?ds\<rparr>"
  have ord: "\<forall>k\<in>set [''k'', ''j'']. k \<notin> set Object_prototype_names"
    by (simp add: Object_prototype_names_def)
  have l0: "sc_loads ?st = [(''k'', ''u'')]"
    by (simp add: scope_defs cache_defs Let_def)
  have sk: "getByPosition (sc_cache ?st) 2 3 ''k'' \<noteq> None"
    by (simp add: scope_defs cache_defs Let_def)
  have sj: "getByPosition (sc_cache ?st) 2 3 ''j'' = None"
    by (simp add: scope_defs cache_defs Let_def)
  note t = C6_load_only_when_position_lacks_key
    [of ?doc "[''k'', ''j'']" ?ds ?ops 2 3 "image_cell ''k'' ''u''", OF _ _ _ _ ord]
  have t': "(\<exists>new. sc_loads (handleCell ?st (2, 3, Some \<lparr>cell_p = Some ?doc\<rparr>)) = sc_loads ?st @ new
          \<and> map fst new = filter (\<lambda>k. getByPosition (sc_cache ?st) 2 3 k = None \<and> ?ds k \<noteq> None) [''k'', ''j'']
          \<and> distinct (map fst new)
          \<and> (\<forall>k src. (k, src) \<in> set new \<longrightarrow> (\<exists>dr. ?ds k = Some dr \<and> src = source dr)))
       \<and> ((2::int) \<noteq> -1 \<and> (3::int) \<noteq> -1 \<longrightarrow>
            handleCell (handleCell ?st (2, 3, image_cell ''k'' ''u'')) (2, 3, image_cell ''k'' ''u'')
              = handleCell ?st (2, 3, image_cell ''k'' ''u''))"
    using t by simp
  then obtain new where n: "sc_loads (handleCell ?st (2, 3, Some \<lparr>cell_p = Some ?doc\<rparr>)) = sc_loads ?st @ new"
    and mf: "map fst new = filter (\<lambda>k. getByPosition (sc_cache ?st) 2 3 k = None \<and> ?ds k \<noteq> None) [''k'', ''j'']"
    and src: "\<forall>k src. (k, src) \<in> set new \<longrightarrow> (\<exists>dr. ?ds k = Some dr \<and> src = source dr)"
    by blast
  from mf sk sj have "map fst new = [''j'']" by simp
  then obtain b where nb: "new = [(''j'', b)]" by (cases new) auto
  with src have "b = ''v''" by simp
  with n nb l0 have 1: "sc_loads (handleCell ?st (2, 3, Some \<lparr>cell_p = Some ?doc\<rparr>))
      = [(''k'', ''u''), (''j'', ''v'')]"
    by simp
  have once: "handleCell empty_scope (2, 3, image_cell ''k'' ''u'') = ?st"
    by (simp add: run_scope_def handleCells_def)
  have e0: "empty_scope = run_scope []" by (simp add: run_scope_def)
  have "handleCell (handleCell (run_scope []) (2, 3, image_cell ''k'' ''u'')) (2, 3, image_cell ''k'' ''u'')
      = handleCell (run_scope []) (2, 3, image_cell ''k'' ''u'')"
    using C6_load_only_when_position_lacks_key
      [of ?doc "[''k'', ''j'']" ?ds "[]" 2 3 "image_cell ''k'' ''u''", OF _ _ _ _ ord]
    by simp
  then have 2: "handleCell ?st (2, 3, image_cell ''k'' ''u'') = ?st"
    unfolding e0 [symmetric] once .
  from l0 1 2 show ?thesis by simp
qed

subsection \<open>C4: the shape of the synthesizer's result\<close>

text \<open>
  C4 says that the result is the empty pair when no ranges resolve, and one undo with one
  redo otherwise. \<^verbatim>\<open>getUndoRedoParamsOfColWidth\<close> has a guard of its own: with an empty
  sheet id, or with no current skeleton, it returns the empty pair whatever the ranges are.
  In the environment below the render has no current skeleton; the id of the command
  matches and it names a range, the style is layout-affecting and a range is selected, and
  both interceptors return the empty pair.
\<close>

theorem C4_no_skeleton_gives_empty_pair:
  "cmd_id \<lparr>cmd_id = ''sheet.command.set-col-is-auto-width'', cmd_ranges = [example_range]\<rparr>
     = SetWorksheetColIsAutoWidthCommand_id (example_env None)
 \<and> cmd_ranges \<lparr>cmd_id = ''sheet.command.set-col-is-auto-width'', cmd_ranges = [example_range]\<rparr>
     = [example_range]
 \<and> getMutations_colIsAutoWidth (example_env None)
      \<lparr>cmd_id = ''sheet.command.set-col-is-auto-width'', cmd_ranges = [example_range]\<rparr>
     = Inr \<lparr>redos = [], undos = []\<rparr>
 \<and> style_cmd_id \<lparr>style_cmd_id = ''set-style'', style_type = Some ''fs''\<rparr>
     = SetStyleCommand_id (example_env None)
 \<and> ''fs'' \<in> set AFFECT_LAYOUT_STYLES
 \<and> currentSelections (example_env None) = Some [example_range]
 \<and> getMutations_setStyle (example_env None)
      \<lparr>style_cmd_id = ''set-style'', style_type = Some ''fs''\<rparr>
     = Inr \<lparr>redos = [], undos = []\<rparr>"
  by (simp add: controller_defs)

text \<open>
  C4 as amended: with a current workbook and a render for it (without them the synthesizer
  throws), an interceptor returns the empty pair when the id of the command does not match,
  when (for a style change) the style type is missing or not layout-affecting or no range is
  selected, when the id of the active sheet is empty, or when the render has no current
  skeleton. In every other case it returns exactly one undo and one redo mutation, both
  with the id of the auto-width mutation, the redo carrying the list the skeleton computes
  for the ranges and the undo a list for the same columns.
\<close>

theorem C4_synthesizer_output_shape:
  assumes "currentUnit env = Some workbook"
    and "renderSkeleton env (wb_unitId workbook) = Some current"
  shows "(if cmd_id command \<noteq> SetWorksheetColIsAutoWidthCommand_id env
            \<or> sheetId (activeSheet workbook) = [] \<or> current = None
          then getMutations_colIsAutoWidth env command = Inr \<lparr>redos = [], undos = []\<rparr>
          else \<exists>calc res. current = Some calc
                 \<and> getMutations_colIsAutoWidth env command = Inr res
                 \<and> length (undos res) = 1 \<and> length (redos res) = 1
                 \<and> map mut_id (undos res @ redos res)
                     = [SetWorksheetColAutoWidthMutation_id env, SetWorksheetColAutoWidthMutation_id env]
                 \<and> map (colsAutoWidthInfo \<circ> mut_params) (redos res) = [calc (cmd_ranges command)]
                 \<and> map (map info_col \<circ> colsAutoWidthInfo \<circ> mut_params) (undos res)
                     = [map info_col (calc (cmd_ranges command))])
       \<and> (if style_cmd_id scommand \<noteq> SetStyleCommand_id env
            \<or> (\<forall>ty. style_type scommand = Some ty \<longrightarrow> ty \<notin> set AFFECT_LAYOUT_STYLES)
            \<or> (\<forall>selections. currentSelections env = Some selections \<longrightarrow> selections = [])
            \<or> sheetId (activeSheet workbook) = [] \<or> current = None
          then getMutations_setStyle env scommand = Inr \<lparr>redos = [], undos = []\<rparr>
          else \<exists>calc selections res. current = Some calc
                 \<and> currentSelections env = Some selections
                 \<and> getMutations_setStyle env scommand = Inr res
                 \<and> length (undos res) = 1 \<and> length (redos res) = 1
                 \<and> map mut_id (undos res @ redos res)
                     = [SetWorksheetColAutoWidthMutation_id env, SetWorksheetColAutoWidthMutation_id env]
                 \<and> map (colsAutoWidthInfo \<circ> mut_params) (redos res) = [calc selections]
                 \<and> map (map info_col \<circ> colsAutoWidthInfo \<circ> mut_params) (undos res)
                     = [map info_col (calc selections)])"
proof -
  note g = getUndoRedoParams_cases [OF assms]
  have shape: "length (undos (synthesized env workbook calc ranges)) = 1
      \<and> length (redos (synthesized env workbook calc ranges)) = 1
      \<and> map mut_id (undos (synthesized env workbook calc ranges) @ redos (synthesized env workbook calc ranges))
           = [SetWorksheetColAutoWidthMutation_id env, SetWorksheetColAutoWidthMutation_id env]
      \<and> map (colsAutoWidthInfo \<circ> mut_params) (redos (synthesized env workbook calc ranges)) = [calc ranges]
      \<and> map (map info_col \<circ> colsAutoWidthInfo \<circ> mut_params) (undos (synthesized env workbook calc ranges))
           = [map info_col (calc ranges)]" for calc ranges
    by (simp add: synthesized_def Let_def SetWorksheetColAutoWidthMutationFactory_def
          previous_width_def comp_def)
  have 1: "(if cmd_id command \<noteq> SetWorksheetColIsAutoWidthCommand_id env
            \<or> sheetId (activeSheet workbook) = [] \<or> current = None
          then getMutations_colIsAutoWidth env command = Inr \<lparr>redos = [], undos = []\<rparr>
          else \<exists>calc res. current = Some calc
                 \<and> getMutations_colIsAutoWidth env command = Inr res
                 \<and> length (undos res) = 1 \<and> length (redos res) = 1
                 \<and> map mut_id (undos res @ redos res)
                     = [SetWorksheetColAutoWidthMutation_id env, SetWorksheetColAutoWidthMutation_id env]
                 \<and> map (colsAutoWidthInfo \<circ> mut_params) (redos res) = [calc (cmd_ranges command)]
                 \<and> map (map info_col \<circ> colsAutoWidthInfo \<circ> mut_params) (undos res)
                     = [map info_col (calc (cmd_ranges command))])"
  proof (cases "cmd_id command \<noteq> SetWorksheetColIsAutoWidthCommand_id env
            \<or> sheetId (activeSheet workbook) = [] \<or> current = None")
    case True
    then show ?thesis
      by (auto simp: getMutations_colIsAutoWidth_def g no_mutations_def split: option.splits)
  next
    case False
    then obtain calc where c: "current = Some calc" by auto
    from False c have "getMutations_colIsAutoWidth env command
        = Inr (synthesized env workbook calc (cmd_ranges command))"
      by (simp add: getMutations_colIsAutoWidth_def g)
    with shape [of calc "cmd_ranges command"] c False show ?thesis by auto
  qed
  have 2: "(if style_cmd_id scommand \<noteq> SetStyleCommand_id env
            \<or> (\<forall>ty. style_type scommand = Some ty \<longrightarrow> ty \<notin> set AFFECT_LAYOUT_STYLES)
            \<or> (\<forall>selections. currentSelections env = Some selections \<longrightarrow> selections = [])
            \<or> sheetId (activeSheet workbook) = [] \<or> current = None
          then getMutations_setStyle env scommand = Inr \<lparr>redos = [], undos = []\<rparr>
          else \<exists>calc selections res. current = Some calc
                 \<and> currentSelections env = Some selections
                 \<and> getMutations_setStyle env scommand = Inr res
                 \<and> length (undos res) = 1 \<and> length (redos res) = 1
                 \<and> map mut_id (undos res @ redos res)
                     = [SetWorksheetColAutoWidthMutation_id env, SetWorksheetColAutoWidthMutation_id env]
                 \<and> map (colsAutoWidthInfo \<circ> mut_params) (redos res) = [calc selections]
                 \<and> map (map info_col \<circ> colsAutoWidthInfo \<circ> mut_params) (undos res)
                     = [map info_col (calc selections)])"
  proof (cases "style_cmd_id scommand \<noteq> SetStyleCommand_id env
            \<or> (\<forall>ty. style_type scommand = Some ty \<longrightarrow> ty \<notin> set AFFECT_LAYOUT_STYLES)
            \<or> (\<forall>selections. currentSelections env = Some selections \<longrightarrow> selections = [])
            \<or> sheetId (activeSheet workbook) = [] \<or> current = None")
    case True
    then show ?thesis
      by (auto simp: getMutations_setStyle_def g no_mutations_def split: option.splits)
  next
    case False
    then obtain calc ty selections where c: "current = Some calc"
      and ty: "style_type scommand = Some ty" "ty \<in> set AFFECT_LAYOUT_STYLES"
      and sel: "currentSelections env = Some selections" "selections \<noteq> []"
      by auto
    from False c ty sel have "getMutations_setStyle env scommand
        = Inr (synthesized env workbook calc selections)"
      by (simp add: getMutations_setStyle_def g)
    with shape [of calc selections] c sel False show ?thesis by auto
  qed
  from 1 2 show ?thesis by (rule conjI)
qed

theorem C4_synthesizer_output_shape_witness:
  "(\<exists>res. getMutations_colIsAutoWidth (example_env (Some example_skeleton))
            \<lparr>cmd_id = ''sheet.command.set-col-is-auto-width'', cmd_ranges = [example_range]\<rparr> = Inr res
        \<and> length (undos res) = 1 \<and> length (redos res) = 1
        \<and> map (colsAutoWidthInfo \<circ> mut_params) (redos res) = [[\<lparr>info_col = 1, autoWidth = Some 88\<rparr>]]
        \<and> map (map info_col \<circ> colsAutoWidthInfo \<circ> mut_params) (undos res) = [[1]])
 \<and> (\<exists>res. getMutations_setStyle (example_env (Some example_skeleton))
            \<lparr>style_cmd_id = ''set-style'', style_type = Some ''fs''\<rparr> = Inr res
        \<and> length (undos res) = 1 \<and> length (redos res) = 1
        \<and> map (colsAutoWidthInfo \<circ> mut_params) (redos res) = [[\<lparr>info_col = 1, autoWidth = Some 88\<rparr>]]
        \<and> map (map info_col \<circ> colsAutoWidthInfo \<circ> mut_params) (undos res) = [[1]])"
proof -
  let ?env = "example_env (Some example_skeleton)"
  have wb: "currentUnit ?env = Some example_workbook" by (simp add: example_env_def)
  have rd: "renderSkeleton ?env (wb_unitId example_workbook) = Some (Some example_skeleton)"
    by (simp add: example_env_def example_workbook_def)
  have ids: "SetWorksheetColIsAutoWidthCommand_id ?env = ''sheet.command.set-col-is-auto-width''"
    "SetStyleCommand_id ?env = ''set-style''"
    "currentSelections ?env = Some [example_range]"
    "sheetId (activeSheet example_workbook) = ''sheet1''"
    by (simp_all add: example_env_def example_workbook_def)
  have sk: "example_skeleton [example_range] = [\<lparr>info_col = 1, autoWidth = Some 88\<rparr>]"
    by (simp add: example_skeleton_def example_range_def)
  let ?cmd = "\<lparr>cmd_id = ''sheet.command.set-col-is-auto-width'', cmd_ranges = [example_range]\<rparr>"
  let ?scmd = "\<lparr>style_cmd_id = ''set-style'', style_type = Some ''fs''\<rparr>"
  note t = C4_synthesizer_output_shape [OF wb rd, of ?cmd ?scmd]
  have n1: "\<not> (cmd_id ?cmd \<noteq> SetWorksheetColIsAutoWidthCommand_id ?env
            \<or> sheetId (activeSheet example_workbook) = [] \<or> Some example_skeleton = None)"
    by (simp add: ids)
  have n2: "\<not> (style_cmd_id ?scmd \<noteq> SetStyleCommand_id ?env
            \<or> (\<forall>ty. style_type ?scmd = Some ty \<longrightarrow> ty \<notin> set AFFECT_LAYOUT_STYLES)
            \<or> (\<forall>selections. currentSelections ?env = Some selections \<longrightarrow> selections = [])
            \<or> sheetId (activeSheet example_workbook) = [] \<or> Some example_skeleton = None)"
    by (simp add: ids AFFECT_LAYOUT_STYLES_def)
  note e1 = if_else [OF t [THEN conjunct1] n1]
  note e2 = if_else [OF t [THEN conjunct2] n2]
  from e1 obtain calc1 res1 where r1:
    "Some example_skeleton = Some calc1"
    "getMutations_colIsAutoWidth ?env ?cmd = Inr res1"
    "length (undos res1) = 1" "length (redos res1) = 1"
    "map (colsAutoWidthInfo \<circ> mut_params) (redos res1) = [calc1 (cmd_ranges ?cmd)]"
    "map (map info_col \<circ> colsAutoWidthInfo \<circ> mut_params) (undos res1)
       = [map info_col (calc1 (cmd_ranges ?cmd))]"
    by (elim exE conjE)
  from e2 obtain calc2 sel res2 where r2:
    "Some example_skeleton = Some calc2"
    "currentSelections ?env = Some sel"
    "getMutations_setStyle ?env ?scmd = Inr res2"
    "length (undos res2) = 1" "length (redos res2) = 1"
    "map (colsAutoWidthInfo \<circ> mut_params) (redos res2) = [calc2 sel]"
    "map (map info_col \<circ> colsAutoWidthInfo \<circ> mut_params) (undos res2)
       = [map info_col (calc2 sel)]"
    by (elim exE conjE)
  from r1(1) have k1: "calc1 = example_skeleton" by simp
  from r2(1) have k2: "calc2 = example_skeleton" by simp
  from r2(2) have k3: "sel = [example_range]" by (simp add: ids)
  have c1: "\<exists>res. getMutations_colIsAutoWidth ?env ?cmd = Inr res
        \<and> length (undos res) = 1 \<and> length (redos res) = 1
        \<and> map (colsAutoWidthInfo \<circ> mut_params) (redos res) = [[\<lparr>info_col = 1, autoWidth = Some 88\<rparr>]]
        \<and> map (map info_col \<circ> colsAutoWidthInfo \<circ> mut_params) (undos res) = [[1]]"
    using r1 by (intro exI [of _ res1]) (simp add: sk k1)
  have c2: "\<exists>res. getMutations_setStyle ?env ?scmd = Inr res
        \<and> length (undos res) = 1 \<and> length (redos res) = 1
        \<and> map (colsAutoWidthInfo \<circ> mut_params) (redos res) = [[\<lparr>info_col = 1, autoWidth = Some 88\<rparr>]]
        \<and> map (map info_col \<circ> colsAutoWidthInfo \<circ> mut_params) (undos res) = [[1]]"
    using r2 by (intro exI [of _ res2]) (simp add: sk k2 k3)
  from c1 c2 show ?thesis by (rule conjI)
qed

subsection \<open>C9: lookups\<close>

text \<open>
  C9 says that a lookup by position always returns a record, also for an unknown scope.
  The service's lookups go through \<^verbatim>\<open>?.\<close>: for a scope it has never seen,
  \<^verbatim>\<open>getImageCache\<close> returns \<^verbatim>\<open>undefined\<close>, not an empty record.
\<close>

theorem C9_unknown_scope_gives_undefined:
  "getImageCache new_service ''unit'' ''sheet'' 0 0 = None"
  by (simp add: getImageCache_def scopeMap_def new_service_def)

text \<open>
  C9 as amended. A lookup does not throw and leaves the state as it was. On a cache,
  \<^verbatim>\<open>getByKey\<close> returns the entry stored under the key and \<^verbatim>\<open>undefined\<close> when there is none:
  right after \<^verbatim>\<open>set(k, e)\<close> it returns \<open>e\<close>, right after \<^verbatim>\<open>delete(k)\<close> it returns
  \<^verbatim>\<open>undefined\<close>. \<^verbatim>\<open>getByPosition\<close> returns a record: each entry in it is filed under its own
  key and is in \<^verbatim>\<open>_map\<close> under a key of the bucket of the position, every such entry has its
  key in the record, and the record is empty for a position without keys. On the service,
  every lookup in an unknown scope returns \<^verbatim>\<open>undefined\<close>; in a known scope
  \<^verbatim>\<open>getImageCache\<close> and \<^verbatim>\<open>getImageElementByPosition\<close> return the record of the scope's
  cache, and \<^verbatim>\<open>getImageElementByKey\<close> the image of the entry, or \<^verbatim>\<open>undefined\<close> when the key
  has none.
\<close>

theorem C9_lookups_total:
  "(\<exists>v. call s (Call_getByKey k) = Inr (v, s)
        \<and> (c_map s k = None \<longrightarrow> v = Ret_undefined)
        \<and> (\<forall>e. c_map s k = Some e \<longrightarrow> v = Ret_entry e))
 \<and> call (set_entry k e s) (Call_getByKey k) = Inr (Ret_entry e, set_entry k e s)
 \<and> call (delete k s) (Call_getByKey k) = Inr (Ret_undefined, delete k s)
 \<and> (\<exists>record. call s (Call_getByPosition r c) = Inr (Ret_record record, s)
        \<and> (\<forall>k' e'. record k' = Some e' \<longrightarrow>
              key e' = k' \<and> (\<exists>k''\<in>set (positionBucket s r c). c_map s k'' = Some e'))
        \<and> (\<forall>k''\<in>set (positionBucket s r c). \<forall>e'. c_map s k'' = Some e' \<longrightarrow>
              record (key e') \<noteq> None)
        \<and> (positionBucket s r c = [] \<longrightarrow> record = Map.empty))
 \<and> (is_lookup q \<longrightarrow> (\<exists>v. call s q = Inr (v, s)))
 \<and> (scopeMap svc u su = None \<longrightarrow>
       service_call svc (GetImageCache u su r c) = Inr (SRet_undefined, svc)
     \<and> service_call svc (GetImageElementByPosition u su r c) = Inr (SRet_undefined, svc)
     \<and> service_call svc (GetImageElementByKey u su k) = Inr (SRet_undefined, svc))
 \<and> (scopeMap svc u' su' = Some m \<longrightarrow>
       service_call svc (GetImageCache u' su' r c) = Inr (SRet_record (getByPosition m r c), svc)
     \<and> service_call svc (GetImageElementByPosition u' su' r c)
         = Inr (SRet_images (getImageCahce m r c), svc)
     \<and> service_call svc (GetImageElementByKey u' su' k)
         = Inr ((case c_map m k of None \<Rightarrow> SRet_undefined | Some e' \<Rightarrow> SRet_image (image_elem e')),
                svc))"
proof -
  have 1: "\<exists>v. call s (Call_getByKey k) = Inr (v, s)
        \<and> (c_map s k = None \<longrightarrow> v = Ret_undefined)
        \<and> (\<forall>e. c_map s k = Some e \<longrightarrow> v = Ret_entry e)"
    by (cases "c_map s k") (simp_all add: getByKey_def)
  have 2: "call (set_entry k e s) (Call_getByKey k) = Inr (Ret_entry e, set_entry k e s)"
    by (simp add: getByKey_def c_map_set_entry_eq)
  have 3: "call (delete k s) (Call_getByKey k) = Inr (Ret_undefined, delete k s)"
    by (simp add: getByKey_def c_map_delete)
  have 4: "\<exists>record. call s (Call_getByPosition r c) = Inr (Ret_record record, s)
        \<and> (\<forall>k' e'. record k' = Some e' \<longrightarrow>
              key e' = k' \<and> (\<exists>k''\<in>set (positionBucket s r c). c_map s k'' = Some e'))
        \<and> (\<forall>k''\<in>set (positionBucket s r c). \<forall>e'. c_map s k'' = Some e' \<longrightarrow>
              record (key e') \<noteq> None)
        \<and> (positionBucket s r c = [] \<longrightarrow> record = Map.empty)"
  proof (intro exI [of _ "getByPosition s r c"] conjI allI impI ballI)
    show "call s (Call_getByPosition r c) = Inr (Ret_record (getByPosition s r c), s)" by simp
  next
    fix k' e'
    assume g: "getByPosition s r c k' = Some e'"
    from getByPosition_subset [OF g] show "key e' = k'" by blast
    from getByPosition_subset [OF g] show "\<exists>k''\<in>set (positionBucket s r c). c_map s k'' = Some e'"
      by blast
  next
    fix k'' e'
    assume "k'' \<in> set (positionBucket s r c)" "c_map s k'' = Some e'"
    then show "getByPosition s r c (key e') \<noteq> None" by (rule getByPosition_has_entry)
  next
    assume "positionBucket s r c = []"
    then show "getByPosition s r c = Map.empty" by (rule getByPosition_no_keys)
  qed
  have 5: "is_lookup q \<longrightarrow> (\<exists>v. call s q = Inr (v, s))"
    by (simp add: lookup_call)
  have 6: "scopeMap svc u su = None \<longrightarrow>
       service_call svc (GetImageCache u su r c) = Inr (SRet_undefined, svc)
     \<and> service_call svc (GetImageElementByPosition u su r c) = Inr (SRet_undefined, svc)
     \<and> service_call svc (GetImageElementByKey u su k) = Inr (SRet_undefined, svc)"
    by (simp add: getImageCache_def getImageElementByPosition_def getImageElementByKey_def)
  have 7: "scopeMap svc u' su' = Some m \<longrightarrow>
       service_call svc (GetImageCache u' su' r c) = Inr (SRet_record (getByPosition m r c), svc)
     \<and> service_call svc (GetImageElementByPosition u' su' r c)
         = Inr (SRet_images (getImageCahce m r c), svc)
     \<and> service_call svc (GetImageElementByKey u' su' k)
         = Inr ((case c_map m k of None \<Rightarrow> SRet_undefined | Some e' \<Rightarrow> SRet_image (image_elem e')),
                svc)"
    by (cases "c_map m k")
       (simp_all add: getImageCache_def getImageElementByPosition_def getImageElementByKey_def
          getByKey_def)
  from 1 2 3 4 5 6 7 show ?thesis by (intro conjI)
qed

theorem C9_lookups_total_witness:
  "call (sc_cache (handleCells empty_scope [(2, 3, image_cell ''k'' ''u'')])) (Call_getByKey ''k'')
     = Inr (Ret_entry (new_item ''k'' 2 3 0 \<lparr>img_src = ''u'', img_width = 0, img_height = 0\<rparr>),
            sc_cache (handleCells empty_scope [(2, 3, image_cell ''k'' ''u'')]))
 \<and> call (sc_cache (handleCells empty_scope [(2, 3, image_cell ''k'' ''u'')])) (Call_getByPosition 7 7)
     = Inr (Ret_record Map.empty, sc_cache (handleCells empty_scope [(2, 3, image_cell ''k'' ''u'')]))
 \<and> service_call (handleMatrix new_service ''book'' ''sheet1'' [(2, 3, image_cell ''k'' ''u'')])
      (GetImageCache ''other'' ''sheet1'' 2 3)
     = Inr (SRet_undefined, handleMatrix new_service ''book'' ''sheet1'' [(2, 3, image_cell ''k'' ''u'')])
 \<and> service_call (handleMatrix new_service ''book'' ''sheet1'' [(2, 3, image_cell ''k'' ''u'')])
      (GetImageElementByKey ''book'' ''sheet1'' ''k'')
     = Inr (SRet_image \<lparr>img_src = ''u'', img_width = 0, img_height = 0\<rparr>,
            handleMatrix new_service ''book'' ''sheet1'' [(2, 3, image_cell ''k'' ''u'')])"
proof -
  let ?svc = "handleMatrix new_service ''book'' ''sheet1'' [(2, 3, image_cell ''k'' ''u'')]"
  let ?m = "sc_cache (handleCells empty_scope [(2, 3, image_cell ''k'' ''u'')])"
  let ?e = "new_item ''k'' 2 3 0 \<lparr>img_src = ''u'', img_width = 0, img_height = 0\<rparr>"
  have a: "scopeMap ?svc ''other'' ''sheet1'' = None"
    by (simp add: scopeMap_def handleMatrix_def new_service_def Let_def)
  have b: "scopeMap ?svc ''book'' ''sheet1'' = Some ?m"
    by (simp add: scopeMap_def handleMatrix_def new_service_def ensureMap_def empty_scope_def Let_def)
  have c: "positionBucket ?m 7 7 = []"
    by (simp add: scope_defs cache_defs Let_def)
  have e: "c_map ?m ''k'' = Some ?e"
    by (simp add: scope_defs cache_defs Let_def)
  note t = C9_lookups_total
    [of ?m "''k''" ?e 7 7 "Call_getByKey ''k''" ?svc "''other''" "''sheet1''" "''book''" "''sheet1''" ?m]
  from t obtain v where v: "call ?m (Call_getByKey ''k'') = Inr (v, ?m)"
    "\<forall>e. c_map ?m ''k'' = Some e \<longrightarrow> v = Ret_entry e"
    by blast
  with e have 1: "call ?m (Call_getByKey ''k'') = Inr (Ret_entry ?e, ?m)" by blast
  from t obtain rec0 where r: "call ?m (Call_getByPosition 7 7) = Inr (Ret_record rec0, ?m)"
    "positionBucket ?m 7 7 = [] \<longrightarrow> rec0 = Map.empty"
    by blast
  with c have 2: "call ?m (Call_getByPosition 7 7) = Inr (Ret_record Map.empty, ?m)" by simp
  from t a have "service_call ?svc (GetImageCache ''other'' ''sheet1'' 7 7) = Inr (SRet_undefined, ?svc)"
    by blast
  have 3: "service_call ?svc (GetImageCache ''other'' ''sheet1'' 2 3) = Inr (SRet_undefined, ?svc)"
    using C9_lookups_total
      [of ?m "''k''" ?e 2 3 "Call_getByKey ''k''" ?svc "''other''" "''sheet1''" "''book''" "''sheet1''" ?m] a
    by blast
  from t b have "service_call ?svc (GetImageElementByKey ''book'' ''sheet1'' ''k'')
      = Inr ((case c_map ?m ''k'' of None \<Rightarrow> SRet_undefined | Some e' \<Rightarrow> SRet_image (image_elem e')), ?svc)"
    by blast
  with e have 4: "service_call ?svc (GetImageElementByKey ''book'' ''sheet1'' ''k'')
      = Inr (SRet_image \<lparr>img_src = ''u'', img_width = 0, img_height = 0\<rparr>, ?svc)"
    by (simp add: new_item_def)
  from 1 2 3 4 show ?thesis by (intro conjI)
qed

end
